theory Spec2Isabelle
  imports Main "HOL-Library.Word"
begin

section \<open>Data model of IasAvbVideoRingBufferShm\<close>

text \<open>
  The control block of the shared-memory video ring buffer. The C++ fields are
  \<open>uint32_t\<close> (slot counts and offsets), \<open>uint64_t\<close> (nanosecond stamps) and
  \<open>pid_t\<close> (a signed 32-bit integer, read here through \<open>sint\<close>), so all
  arithmetic wraps as it does in the source. The header that declares the
  class, the reader entry and the enumerations is not among the sources: the
  members, their types and the enumerators are the ones the implementation file
  uses.
\<close>

type_synonym u32 = "32 word"
type_synonym u64 = "64 word"
type_synonym pid_t = "32 word"

datatype IasVideoRingBufferResult =
    eIasRingBuffOk
  | eIasRingBuffInvalidParam
  | eIasRingBuffNotInitialized
  | eIasRingBuffNotAllowed
  | eIasRingBuffTooManyReaders
  | eIasRingBuffTimeOut
  | eIasRingBuffCondWaitFailed

datatype IasRingBufferAccess =
    eIasRingBufferAccessUndef
  | eIasRingBufferAccessRead
  | eIasRingBufferAccessWrite

text \<open>
  Result of the condition variable's timed wait. The source tests it against
  \<open>eIasOk\<close> and \<open>eIasTimeout\<close> only; every other code is \<open>eIasCondOther\<close>.
\<close>

datatype IasCondVarResult = eIasOk | eIasTimeout | eIasCondOther nat

record RingBufferReader =
  pid :: pid_t
  offset :: u32
  lastAccess :: u64
  allowedToRead :: u32

text \<open>
  \<open>mMutexWriteInProgress\<close> is the writer-borrow mutex: \<open>True\<close> while locked.
  \<open>mMutex\<close> and \<open>mMutexReaders\<close> are taken and released inside one call and
  carry no state between calls. \<open>mCondReadBroadcasts\<close> and
  \<open>mCondWriteBroadcasts\<close> count the calls of \<open>mCondRead.broadcast()\<close> and
  \<open>mCondWrite.broadcast()\<close>. \<open>mDataBuf\<close> is the address of the slot array,
  \<open>0\<close> for \<open>nullptr\<close>.
\<close>

record IasAvbVideoRingBufferShm =
  mBufferSize :: u32
  mNumBuffers :: u32
  mReadOffset :: u32
  mWriteOffset :: u32
  mBufferLevel :: u32
  mShared :: bool
  mInitialized :: bool
  mReadInProgress :: bool
  mWriteInProgress :: bool
  mDataBuf :: nat
  mMutexWriteInProgress :: bool
  mCondReadBroadcasts :: nat
  mCondWriteBroadcasts :: nat
  mReadWaitLevel :: u32
  mWriteWaitLevel :: u32
  mAllowedToWrite :: u32
  mWriterLastAccess :: u64
  mReaders :: "RingBufferReader list"

definition NSEC_PER_SEC :: u64 where
  "NSEC_PER_SEC = 1000000000"

definition READER_TIMEOUT_NS :: u64 where
  "READER_TIMEOUT_NS = 2 * NSEC_PER_SEC"

definition UINT32_MAX :: u32 where
  "UINT32_MAX = 0xFFFFFFFF"

text \<open>
  Modelled from the spec: the constant \<open>cIasVideoRingBufferShmMaxReaders\<close> is
  declared in the header, which is not among the sources; the spec gives the
  table capacity as 16. Only the constructor uses it: every operation below
  walks the whole table, whatever its length.
\<close>

definition cIasVideoRingBufferShmMaxReaders :: nat where
  "cIasVideoRingBufferShmMaxReaders = 16"

definition zeroReader :: RingBufferReader where
  "zeroReader = \<lparr> pid = 0, offset = 0, lastAccess = 0, allowedToRead = 0 \<rparr>"

text \<open>The state the constructor's initialiser list builds.\<close>

definition constructed :: IasAvbVideoRingBufferShm where
  "constructed = \<lparr>
     mBufferSize = 0, mNumBuffers = 0, mReadOffset = 0, mWriteOffset = 0,
     mBufferLevel = 0, mShared = False, mInitialized = False,
     mReadInProgress = False, mWriteInProgress = False, mDataBuf = 0,
     mMutexWriteInProgress = False, mCondReadBroadcasts = 0,
     mCondWriteBroadcasts = 0, mReadWaitLevel = 0, mWriteWaitLevel = 0,
     mAllowedToWrite = 0, mWriterLastAccess = 0,
     mReaders = replicate cIasVideoRingBufferShmMaxReaders zeroReader \<rparr>"

section \<open>Helpers\<close>

text \<open>
  Modelled from the spec: \<open>findReader\<close> is defined in the header, which is not
  among the sources. The spec says the operations "find the reader" with the
  given id and fail with \<open>InvalidParam\<close> for an unknown id; the model scans the
  table in index order and returns the index of the first entry whose \<open>pid\<close>
  equals the argument, \<open>None\<close> standing for \<open>nullptr\<close>.
\<close>

fun findReader :: "RingBufferReader list \<Rightarrow> pid_t \<Rightarrow> nat option" where
  "findReader [] p = None"
| "findReader (r # rs) p =
     (if pid r = p then Some 0 else map_option Suc (findReader rs p))"

definition calculateReaderBufferLevel ::
  "IasAvbVideoRingBufferShm \<Rightarrow> RingBufferReader \<Rightarrow> u32" where
  "calculateReaderBufferLevel s reader =
     (let writeOffset = mWriteOffset s in
      if writeOffset \<ge> offset reader then writeOffset - offset reader
      else mNumBuffers s - offset reader + writeOffset)"

text \<open>
  \<open>now\<close> is the value \<open>ts.tv_sec * NSEC_PER_SEC + ts.tv_nsec\<close> read from the
  monotonic clock by the call.
\<close>

definition updateReaderAccess :: "u64 \<Rightarrow> RingBufferReader \<Rightarrow> RingBufferReader" where
  "updateReaderAccess now reader = reader\<lparr>lastAccess := now\<rparr>"

definition updateWriterAccess ::
  "u64 \<Rightarrow> IasAvbVideoRingBufferShm \<Rightarrow> IasAvbVideoRingBufferShm" where
  "updateWriterAccess now s = s\<lparr>mWriterLastAccess := now\<rparr>"

definition clearReader :: "RingBufferReader \<Rightarrow> RingBufferReader" where
  "clearReader r = r\<lparr>pid := 0, offset := 0, lastAccess := 0, allowedToRead := 0\<rparr>"

definition purgeUnresponsiveReaders ::
  "u64 \<Rightarrow> IasAvbVideoRingBufferShm \<Rightarrow> IasAvbVideoRingBufferShm" where
  "purgeUnresponsiveReaders now s =
     s\<lparr>mReaders := map (\<lambda>r.
         if pid r \<noteq> 0 then
           (if now > lastAccess r \<and> now - lastAccess r > READER_TIMEOUT_NS
            then clearReader r else r)
         else r) (mReaders s)\<rparr>"

text \<open>The first loop of \<open>updateSmallerReaderOffset\<close>, the running minimum as accumulator.\<close>

fun smallerOffsetLoop :: "RingBufferReader list \<Rightarrow> u32 \<Rightarrow> u32" where
  "smallerOffsetLoop [] smallerOffset = smallerOffset"
| "smallerOffsetLoop (r # rs) smallerOffset =
     smallerOffsetLoop rs
       (if pid r \<noteq> 0 then (if offset r < smallerOffset then offset r else smallerOffset)
        else smallerOffset)"

definition updateSmallerReaderOffset ::
  "IasAvbVideoRingBufferShm \<Rightarrow> u32 \<times> IasAvbVideoRingBufferShm" where
  "updateSmallerReaderOffset s =
     (let smallerOffset = smallerOffsetLoop (mReaders s) UINT32_MAX in
      if smallerOffset = UINT32_MAX then (smallerOffset, s)
      else if smallerOffset = mNumBuffers s then
        (smallerOffset,
         s\<lparr>mReaders := map (\<lambda>r. if pid r \<noteq> 0 then r\<lparr>offset := 0\<rparr> else r) (mReaders s)\<rparr>)
      else (smallerOffset, s))"

definition aggregateReaderOffset ::
  "IasAvbVideoRingBufferShm \<Rightarrow> IasAvbVideoRingBufferShm" where
  "aggregateReaderOffset s =
     (let (smallerOffset, s1) = updateSmallerReaderOffset s;
          s2 = s1\<lparr>mBufferLevel := mBufferLevel s1 - (smallerOffset - mReadOffset s1)\<rparr>
      in if smallerOffset = mNumBuffers s2 then s2\<lparr>mReadOffset := 0\<rparr>
         else if smallerOffset < mNumBuffers s2 then s2\<lparr>mReadOffset := smallerOffset\<rparr>
         else s2)"

section \<open>Public interface\<close>

definition init ::
  "u32 \<Rightarrow> u32 \<Rightarrow> nat \<Rightarrow> bool \<Rightarrow> IasAvbVideoRingBufferShm
   \<Rightarrow> IasVideoRingBufferResult \<times> IasAvbVideoRingBufferShm" where
  "init packetSize numBuffers dataBuf shared s =
     (let s1 = s\<lparr>mShared := shared\<rparr> in
      if packetSize = 0 \<or> numBuffers = 0 \<or> dataBuf = 0 then (eIasRingBuffInvalidParam, s1)
      else (eIasRingBuffOk,
            s1\<lparr>mBufferSize := packetSize, mNumBuffers := numBuffers,
               mDataBuf := dataBuf, mInitialized := True\<rparr>))"

text \<open>
  The out-parameter \<open>uint32_t *numBuffers\<close> is an option: \<open>None\<close> is
  \<open>nullptr\<close>, \<open>Some v\<close> a pointer to a cell holding \<open>v\<close>; the result carries
  the cell's content after the call.
\<close>

definition updateAvailable ::
  "IasRingBufferAccess \<Rightarrow> pid_t \<Rightarrow> u32 option \<Rightarrow> IasAvbVideoRingBufferShm
   \<Rightarrow> IasVideoRingBufferResult \<times> u32 option" where
  "updateAvailable access p numBuffers s =
     (if numBuffers = None \<or> access = eIasRingBufferAccessUndef
        then (eIasRingBuffInvalidParam, numBuffers)
      else if \<not> mInitialized s then (eIasRingBuffNotInitialized, numBuffers)
      else if access = eIasRingBufferAccessRead then
        (case findReader (mReaders s) p of
           None \<Rightarrow> (eIasRingBuffInvalidParam, numBuffers)
         | Some i \<Rightarrow> (eIasRingBuffOk, Some (calculateReaderBufferLevel s (mReaders s ! i))))
      else (eIasRingBuffOk, Some (mNumBuffers s - mBufferLevel s)))"

text \<open>The three assignments to \<open>*numBuffers\<close> on the write path, in source order.\<close>

definition writeGrant :: "IasAvbVideoRingBufferShm \<Rightarrow> u32 \<Rightarrow> u32" where
  "writeGrant s numBuffers =
     (let bufferLevel = mBufferLevel s;
          n1 = (if numBuffers > mNumBuffers s - bufferLevel
                then mNumBuffers s - bufferLevel else numBuffers);
          n2 = (if mWriteOffset s + n1 \<ge> mNumBuffers s
                then mNumBuffers s - mWriteOffset s else n1)
      in if mWriteOffset s < mReadOffset s
         then mReadOffset s - mWriteOffset s - 1 else n2)"

text \<open>The two assignments to \<open>*numBuffers\<close> on the read path, in source order.\<close>

definition readGrant ::
  "IasAvbVideoRingBufferShm \<Rightarrow> RingBufferReader \<Rightarrow> u32 \<Rightarrow> u32" where
  "readGrant s reader numBuffers =
     (let bufferLevel = calculateReaderBufferLevel s reader;
          n1 = (if numBuffers > bufferLevel then bufferLevel else numBuffers)
      in if offset reader + n1 \<ge> mNumBuffers s
         then mNumBuffers s - offset reader else n1)"

definition beginAccess ::
  "IasRingBufferAccess \<Rightarrow> pid_t \<Rightarrow> u32 option \<Rightarrow> u32 option \<Rightarrow> u64
   \<Rightarrow> IasAvbVideoRingBufferShm
   \<Rightarrow> IasVideoRingBufferResult \<times> u32 option \<times> u32 option \<times> IasAvbVideoRingBufferShm" where
  "beginAccess access p off numBuffers now s =
     (case (off, numBuffers) of
        (Some off0, Some n0) \<Rightarrow>
          (if access = eIasRingBufferAccessUndef
             then (eIasRingBuffInvalidParam, off, numBuffers, s)
           else if \<not> mInitialized s then (eIasRingBuffNotInitialized, off, numBuffers, s)
           else if access = eIasRingBufferAccessRead then
             (case findReader (mReaders s) p of
                None \<Rightarrow> (eIasRingBuffInvalidParam, off, numBuffers, s)
              | Some i \<Rightarrow>
                  (let reader = mReaders s ! i;
                       n = readGrant s reader n0;
                       reader' = updateReaderAccess now (reader\<lparr>allowedToRead := n\<rparr>)
                   in (eIasRingBuffOk, Some (offset reader), Some n,
                       s\<lparr>mReaders := (mReaders s)[i := reader']\<rparr>)))
           else
             (if mWriteInProgress s then (eIasRingBuffNotAllowed, off, numBuffers, s)
              else
                (let s1 = s\<lparr>mWriteInProgress := True, mMutexWriteInProgress := True\<rparr>;
                     n = writeGrant s1 n0
                 in (eIasRingBuffOk, Some (mWriteOffset s1), Some n,
                     updateWriterAccess now (s1\<lparr>mAllowedToWrite := n\<rparr>)))))
      | _ \<Rightarrow> (eIasRingBuffInvalidParam, off, numBuffers, s))"

text \<open>\<open>updateReaderAccess\<close> applied to the table entry a reader pointer designates.\<close>

definition touchReader ::
  "nat \<Rightarrow> u64 \<Rightarrow> IasAvbVideoRingBufferShm \<Rightarrow> IasAvbVideoRingBufferShm" where
  "touchReader i now s =
     s\<lparr>mReaders := (mReaders s)[i := updateReaderAccess now (mReaders s ! i)]\<rparr>"

text \<open>
  \<open>endAccess\<close> reads the clock in \<open>updateReaderAccess\<close> or
  \<open>updateWriterAccess\<close> (\<open>now\<close>) and once more in
  \<open>purgeUnresponsiveReaders\<close> (\<open>nowPurge\<close>). The source casts \<open>offset\<close> to
  void and uses it in log lines only.
\<close>

definition commitWrite ::
  "u32 \<Rightarrow> u64 \<Rightarrow> u64 \<Rightarrow> IasAvbVideoRingBufferShm
   \<Rightarrow> IasVideoRingBufferResult \<times> IasAvbVideoRingBufferShm" where
  "commitWrite numBuffers now nowPurge s2 =
     (let s3 = s2\<lparr>mBufferLevel := mBufferLevel s2 + numBuffers\<rparr>;
          s4 = s3\<lparr>mWriteInProgress := False, mMutexWriteInProgress := False\<rparr>;
          s5 = (if mBufferLevel s4 \<ge> mReadWaitLevel s4
                then s4\<lparr>mCondReadBroadcasts := Suc (mCondReadBroadcasts s4)\<rparr>
                else s4)
      in (eIasRingBuffOk, purgeUnresponsiveReaders nowPurge (updateWriterAccess now s5)))"

definition endAccess ::
  "IasRingBufferAccess \<Rightarrow> pid_t \<Rightarrow> u32 \<Rightarrow> u32 \<Rightarrow> u64 \<Rightarrow> u64
   \<Rightarrow> IasAvbVideoRingBufferShm
   \<Rightarrow> IasVideoRingBufferResult \<times> IasAvbVideoRingBufferShm" where
  "endAccess access p off numBuffers now nowPurge s =
     (if access = eIasRingBufferAccessUndef then (eIasRingBuffInvalidParam, s)
      else if access = eIasRingBufferAccessRead then
        (case findReader (mReaders s) p of
           None \<Rightarrow> (eIasRingBuffInvalidParam, s)
         | Some i \<Rightarrow>
             (let reader = mReaders s ! i in
              if numBuffers > allowedToRead reader then (eIasRingBuffInvalidParam, s)
              else
                (let reader1 = reader\<lparr>allowedToRead := 0,
                                      offset := offset reader + numBuffers\<rparr>;
                     s1 = aggregateReaderOffset (s\<lparr>mReaders := (mReaders s)[i := reader1]\<rparr>);
                     s2 = (if mBufferLevel s1 \<le> mWriteWaitLevel s1
                           then s1\<lparr>mCondWriteBroadcasts := Suc (mCondWriteBroadcasts s1)\<rparr>
                           else s1)
                 in (eIasRingBuffOk, touchReader i now s2))))
      else
        (if mWriteInProgress s then
           (if numBuffers > mAllowedToWrite s then (eIasRingBuffInvalidParam, s)
            else
              (let s1 = s\<lparr>mAllowedToWrite := 0\<rparr> in
               if mWriteOffset s1 + numBuffers = mNumBuffers s1
                 then commitWrite numBuffers now nowPurge (s1\<lparr>mWriteOffset := 0\<rparr>)
               else if mWriteOffset s1 + numBuffers > mNumBuffers s1
                 then (eIasRingBuffInvalidParam, s1)
               else commitWrite numBuffers now nowPurge
                      (s1\<lparr>mWriteOffset := mWriteOffset s1 + numBuffers\<rparr>)))
         else (eIasRingBuffOk, s)))"

text \<open>
  The wait loops. Each call of \<open>mCondWrite.wait\<close> or \<open>mCondRead.wait\<close> is one
  element of the trace \<open>evs\<close>: the code the wait returns and what the other
  processes did to the control block meanwhile (for \<open>waitRead\<close> also the clock
  value read after the wake). The result is \<open>Some\<close> of the code returned, or
  \<open>None\<close> when the loop is still waiting at the end of the trace: the call has
  not returned. The control block is given in both cases.
\<close>

fun waitWriteLoop ::
  "(IasCondVarResult \<times> (IasAvbVideoRingBufferShm \<Rightarrow> IasAvbVideoRingBufferShm)) list
   \<Rightarrow> IasAvbVideoRingBufferShm
   \<Rightarrow> IasVideoRingBufferResult option \<times> IasAvbVideoRingBufferShm" where
  "waitWriteLoop [] s =
     (if mBufferLevel s > mWriteWaitLevel s then (None, s) else (Some eIasRingBuffOk, s))"
| "waitWriteLoop ((cndres, env) # evs) s =
     (if mBufferLevel s > mWriteWaitLevel s then
        (let s1 = env s in
         if cndres = eIasTimeout then
           (Some (if mBufferLevel s1 > mWriteWaitLevel s1
                  then eIasRingBuffTimeOut else eIasRingBuffOk), s1)
         else if cndres \<noteq> eIasOk then (Some eIasRingBuffCondWaitFailed, s1)
         else waitWriteLoop evs s1)
      else (Some eIasRingBuffOk, s))"

definition waitWrite ::
  "u32 \<Rightarrow> u32
   \<Rightarrow> (IasCondVarResult \<times> (IasAvbVideoRingBufferShm \<Rightarrow> IasAvbVideoRingBufferShm)) list
   \<Rightarrow> IasAvbVideoRingBufferShm
   \<Rightarrow> IasVideoRingBufferResult option \<times> IasAvbVideoRingBufferShm" where
  "waitWrite numBuffers timeout_ms evs s =
     (if numBuffers > mNumBuffers s \<or> numBuffers = 0 \<or> timeout_ms = 0
        then (Some eIasRingBuffInvalidParam, s)
      else waitWriteLoop evs (s\<lparr>mWriteWaitLevel := mNumBuffers s - numBuffers\<rparr>))"

fun waitReadLoop ::
  "nat \<Rightarrow> u32
   \<Rightarrow> (IasCondVarResult \<times> (IasAvbVideoRingBufferShm \<Rightarrow> IasAvbVideoRingBufferShm) \<times> u64) list
   \<Rightarrow> IasAvbVideoRingBufferShm
   \<Rightarrow> IasVideoRingBufferResult option \<times> IasAvbVideoRingBufferShm" where
  "waitReadLoop i numBuffers [] s =
     (if calculateReaderBufferLevel s (mReaders s ! i) < numBuffers then (None, s)
      else (Some eIasRingBuffOk, s))"
| "waitReadLoop i numBuffers ((cndres, env, now) # evs) s =
     (if calculateReaderBufferLevel s (mReaders s ! i) < numBuffers then
        (let s1 = touchReader i now (env s) in
         if cndres = eIasTimeout then
           (Some (if calculateReaderBufferLevel s1 (mReaders s1 ! i) < numBuffers
                  then eIasRingBuffTimeOut else eIasRingBuffOk), s1)
         else if cndres \<noteq> eIasOk then (Some eIasRingBuffCondWaitFailed, s1)
         else waitReadLoop i numBuffers evs s1)
      else (Some eIasRingBuffOk, s))"

definition waitRead ::
  "pid_t \<Rightarrow> u32 \<Rightarrow> u32 \<Rightarrow> u64
   \<Rightarrow> (IasCondVarResult \<times> (IasAvbVideoRingBufferShm \<Rightarrow> IasAvbVideoRingBufferShm) \<times> u64) list
   \<Rightarrow> IasAvbVideoRingBufferShm
   \<Rightarrow> IasVideoRingBufferResult option \<times> IasAvbVideoRingBufferShm" where
  "waitRead p numBuffers timeout_ms now evs s =
     (let reader = findReader (mReaders s) p in
      if numBuffers > mNumBuffers s \<or> numBuffers = 0 \<or> timeout_ms = 0 \<or> reader = None
        then (Some eIasRingBuffInvalidParam, s)
      else
        (case reader of
           None \<Rightarrow> (Some eIasRingBuffInvalidParam, s)
         | Some i \<Rightarrow>
             (let s1 = (if numBuffers < mReadWaitLevel s
                        then s\<lparr>mReadWaitLevel := numBuffers\<rparr> else s)
              in waitReadLoop i numBuffers evs (touchReader i now s1))))"

text \<open>The loop of \<open>addReader\<close>: the first entry with \<open>pid = 0\<close> is taken; \<open>None\<close> when there is none.\<close>

fun addReaderLoop ::
  "RingBufferReader list \<Rightarrow> pid_t \<Rightarrow> u32 \<Rightarrow> u64 \<Rightarrow> RingBufferReader list option" where
  "addReaderLoop [] p readOffset now = None"
| "addReaderLoop (r # rs) p readOffset now =
     (if pid r = 0
      then Some (updateReaderAccess now (r\<lparr>pid := p, offset := readOffset\<rparr>) # rs)
      else map_option ((#) r) (addReaderLoop rs p readOffset now))"

definition addReader ::
  "pid_t \<Rightarrow> u64 \<Rightarrow> IasAvbVideoRingBufferShm
   \<Rightarrow> IasVideoRingBufferResult \<times> IasAvbVideoRingBufferShm" where
  "addReader p now s =
     (if sint p \<le> 0 then (eIasRingBuffInvalidParam, s)
      else (case addReaderLoop (mReaders s) p (mReadOffset s) now of
              None \<Rightarrow> (eIasRingBuffTooManyReaders, s)
            | Some rs \<Rightarrow> (eIasRingBuffOk, s\<lparr>mReaders := rs\<rparr>)))"

definition removeReader ::
  "pid_t \<Rightarrow> IasAvbVideoRingBufferShm
   \<Rightarrow> IasVideoRingBufferResult \<times> IasAvbVideoRingBufferShm" where
  "removeReader p s =
     (if sint p > 0 then
        (if p \<in> set (map pid (mReaders s)) then eIasRingBuffOk else eIasRingBuffInvalidParam,
         s\<lparr>mReaders := map (\<lambda>r. if pid r = p then clearReader r else r) (mReaders s)\<rparr>)
      else (eIasRingBuffInvalidParam, s))"

section \<open>Call sequences\<close>

text \<open>
  One call of the public interface with its arguments (for the calls that read
  the clock, also the values read). In a sequence the calls of all processes
  are in the order they take effect, so a wait call carries only the codes its
  waits return (for \<open>waitRead\<close> with the clock value read after each wake) and
  nothing changes the control block during it. \<open>step\<close> performs the call and
  keeps the control block; \<open>run\<close> performs a sequence of calls from left to
  right.
\<close>

datatype Call =
    CallInit u32 u32 nat bool
  | CallAddReader pid_t u64
  | CallRemoveReader pid_t
  | CallUpdateAvailable IasRingBufferAccess pid_t "u32 option"
  | CallBeginAccess IasRingBufferAccess pid_t "u32 option" "u32 option" u64
  | CallEndAccess IasRingBufferAccess pid_t u32 u32 u64 u64
  | CallWaitWrite u32 u32 "IasCondVarResult list"
  | CallWaitRead pid_t u32 u32 u64 "(IasCondVarResult \<times> u64) list"

fun step :: "Call \<Rightarrow> IasAvbVideoRingBufferShm \<Rightarrow> IasAvbVideoRingBufferShm" where
  "step (CallInit packetSize numBuffers dataBuf shared) s =
     snd (init packetSize numBuffers dataBuf shared s)"
| "step (CallAddReader p now) s = snd (addReader p now s)"
| "step (CallRemoveReader p) s = snd (removeReader p s)"
| "step (CallUpdateAvailable access p numBuffers) s = s"
| "step (CallBeginAccess access p off numBuffers now) s =
     snd (snd (snd (beginAccess access p off numBuffers now s)))"
| "step (CallEndAccess access p off numBuffers now nowPurge) s =
     snd (endAccess access p off numBuffers now nowPurge s)"
| "step (CallWaitWrite numBuffers timeout_ms wakes) s =
     snd (waitWrite numBuffers timeout_ms (map (\<lambda>c. (c, \<lambda>s. s)) wakes) s)"
| "step (CallWaitRead p numBuffers timeout_ms now wakes) s =
     snd (waitRead p numBuffers timeout_ms now (map (\<lambda>(c, t). (c, \<lambda>s. s, t)) wakes) s)"

fun run :: "Call list \<Rightarrow> IasAvbVideoRingBufferShm \<Rightarrow> IasAvbVideoRingBufferShm" where
  "run [] s = s"
| "run (c # cs) s = run cs (step c s)"

text \<open>
  The calls of a legal sequence after \<open>init\<close>: no second \<open>init\<close>, and reader
  ids are not 0 (0 marks a free table entry).
\<close>

fun legal :: "Call \<Rightarrow> bool" where
  "legal (CallInit packetSize numBuffers dataBuf shared) = False"
| "legal (CallAddReader p now) = True"
| "legal (CallRemoveReader p) = True"
| "legal (CallUpdateAvailable access p numBuffers) = True"
| "legal (CallBeginAccess access p off numBuffers now) =
     (if access = eIasRingBufferAccessRead then p \<noteq> 0 else True)"
| "legal (CallEndAccess access p off numBuffers now nowPurge) =
     (if access = eIasRingBufferAccessRead then p \<noteq> 0 else True)"
| "legal (CallWaitWrite numBuffers timeout_ms wakes) = True"
| "legal (CallWaitRead p numBuffers timeout_ms now wakes) = (p \<noteq> 0)"

section \<open>The ring invariant\<close>

text \<open>
  \<open>levelMatches N wo ro L\<close>: the fill level \<open>L\<close> is the distance from the read
  offset to the write offset going round a ring of \<open>N\<close> slots; where the two
  offsets coincide the ring is empty or full.
\<close>

definition levelMatches :: "nat \<Rightarrow> nat \<Rightarrow> nat \<Rightarrow> nat \<Rightarrow> bool" where
  "levelMatches N wo ro L =
     (if ro < wo then L = wo - ro
      else if wo < ro then L = N - ro + wo
      else L = 0 \<or> L = N)"

text \<open>
  A free table entry holds no grant. A live reader is at or past the read
  offset, and its offset plus the slots granted to it stays within the array
  and within the filled part.
\<close>

definition readerOk :: "nat \<Rightarrow> nat \<Rightarrow> nat \<Rightarrow> RingBufferReader \<Rightarrow> bool" where
  "readerOk N ro L r =
     (if pid r = 0 then allowedToRead r = 0
      else ro \<le> unat (offset r)
         \<and> unat (offset r) + unat (allowedToRead r) \<le> N
         \<and> unat (offset r) + unat (allowedToRead r) \<le> ro + L)"

definition Inv :: "IasAvbVideoRingBufferShm \<Rightarrow> bool" where
  "Inv s =
     (let N = unat (mNumBuffers s); wo = unat (mWriteOffset s);
          ro = unat (mReadOffset s); L = unat (mBufferLevel s)
      in 0 < N \<and> N \<le> 2147483648 \<and> wo < N \<and> ro < N \<and> L \<le> N
       \<and> levelMatches N wo ro L
       \<and> list_all (readerOk N ro L) (mReaders s)
       \<and> (if mWriteInProgress s
          then wo + unat (mAllowedToWrite s) \<le> N \<and> L + unat (mAllowedToWrite s) \<le> N
          else True))"


text \<open>Every free table entry is all-zero, as the constructor, \<open>removeReader\<close> and the purge leave it.\<close>

definition freeEntriesZero :: "IasAvbVideoRingBufferShm \<Rightarrow> bool" where
  "freeEntriesZero s = list_all (\<lambda>r. if pid r = 0 then r = zeroReader else True) (mReaders s)"

section \<open>Scenarios\<close>

text \<open>
  States reached through the public interface, used as concrete inputs below.
  \<open>scenarioFull\<close>: a ring of four slots that the writer has filled.
\<close>

definition scenarioFull :: IasAvbVideoRingBufferShm where
  "scenarioFull = run
     [CallInit 1 4 1 False,
      CallBeginAccess eIasRingBufferAccessWrite 0 (Some 0) (Some 4) 0,
      CallEndAccess eIasRingBufferAccessWrite 0 0 4 0 0] constructed"

text \<open>
  \<open>scenarioBehind\<close>: four slots, one reader. The writer commits three slots,
  the reader consumes them, the writer commits the last slot before the physical
  end: the write offset has wrapped to 0 and the read offset is 3.
\<close>

definition scenarioBehind :: IasAvbVideoRingBufferShm where
  "scenarioBehind = run
     [CallInit 1 4 1 False, CallAddReader 1 0,
      CallBeginAccess eIasRingBufferAccessWrite 0 (Some 0) (Some 3) 0,
      CallEndAccess eIasRingBufferAccessWrite 0 0 3 0 0,
      CallBeginAccess eIasRingBufferAccessRead 1 (Some 0) (Some 3) 0,
      CallEndAccess eIasRingBufferAccessRead 1 0 3 0 0,
      CallBeginAccess eIasRingBufferAccessWrite 0 (Some 0) (Some 4) 0,
      CallEndAccess eIasRingBufferAccessWrite 0 0 1 0 0] constructed"

text \<open>
  \<open>scenarioHuge\<close>: a ring of \<open>2\<^sup>3\<^sup>2 - 2\<close> slots, one reader. Three slots are
  written and consumed; the writer then asks for \<open>2\<^sup>3\<^sup>2 - 2\<close> slots at write
  offset 3, where \<open>mWriteOffset + *numBuffers\<close> wraps around to 1 and the
  physical-end clamp does not fire. The borrow is in flight.
\<close>

definition scenarioHuge :: IasAvbVideoRingBufferShm where
  "scenarioHuge = run
     [CallInit 1 0xFFFFFFFE 1 False, CallAddReader 1 0,
      CallBeginAccess eIasRingBufferAccessWrite 0 (Some 0) (Some 3) 0,
      CallEndAccess eIasRingBufferAccessWrite 0 0 3 0 0,
      CallBeginAccess eIasRingBufferAccessRead 1 (Some 0) (Some 3) 0,
      CallEndAccess eIasRingBufferAccessRead 1 0 3 0 0,
      CallBeginAccess eIasRingBufferAccessWrite 0 (Some 0) (Some 0xFFFFFFFE) 0] constructed"

text \<open>
  \<open>scenarioOneReader\<close>: four slots, reader 5 registered. \<open>scenarioTwins\<close>:
  four slots, id 5 registered twice, at clock values 0 and \<open>10\<^sup>1\<^sup>0\<close>; a write
  borrow is in flight.
\<close>

definition scenarioOneReader :: IasAvbVideoRingBufferShm where
  "scenarioOneReader = run [CallInit 1 4 1 False, CallAddReader 5 0] constructed"

definition scenarioTwins :: IasAvbVideoRingBufferShm where
  "scenarioTwins = run
     [CallInit 1 4 1 False, CallAddReader 5 0, CallAddReader 5 10000000000,
      CallBeginAccess eIasRingBufferAccessWrite 0 (Some 0) (Some 0) 10000000001] constructed"

text \<open>
  \<open>scenarioStamped\<close>: from \<open>scenarioOneReader\<close>, reader 5 calls \<open>waitRead\<close> for
  one slot with a timeout of three seconds. While it waits, the writer borrows
  and commits no slots at \<open>3\<cdot>10\<^sup>9\<close> ns, and its purge evicts the reader, idle
  for more than \<open>2\<cdot>10\<^sup>9\<close> ns. The wait then times out and \<open>waitRead\<close> stamps
  the entry it still points to, now free, with the clock value read after the
  wake.
\<close>

definition scenarioStamped :: IasAvbVideoRingBufferShm where
  "scenarioStamped = snd (waitRead 5 1 3000 0
     [(eIasTimeout,
       \<lambda>s. run [CallBeginAccess eIasRingBufferAccessWrite 0 (Some 0) (Some 0) 3000000000,
                 CallEndAccess eIasRingBufferAccessWrite 0 0 0 3000000000 3000000000] s,
       3000000001)] scenarioOneReader)"

text \<open>
  \<open>scenarioWrapped\<close>: a ring of \<open>2\<^sup>3\<^sup>2 - 1\<close> slots, one reader. The writer
  commits \<open>2\<^sup>3\<^sup>2 - 2\<close> slots and the reader consumes them; the writer then
  asks for \<open>2\<^sup>3\<^sup>2 - 1\<close> slots at write offset \<open>2\<^sup>3\<^sup>2 - 2\<close>, the 32-bit sum
  wraps to \<open>2\<^sup>3\<^sup>2 - 3\<close>, below \<open>mNumBuffers\<close>, and all of them are granted and
  committed.
\<close>

definition scenarioWrapped :: IasAvbVideoRingBufferShm where
  "scenarioWrapped = run
     [CallInit 1 0xFFFFFFFF 1 False, CallAddReader 1 0,
      CallBeginAccess eIasRingBufferAccessWrite 0 (Some 0) (Some 0xFFFFFFFE) 0,
      CallEndAccess eIasRingBufferAccessWrite 0 0 0xFFFFFFFE 0 0,
      CallBeginAccess eIasRingBufferAccessRead 1 (Some 0) (Some 0xFFFFFFFE) 0,
      CallEndAccess eIasRingBufferAccessRead 1 0 0xFFFFFFFE 0 0,
      CallBeginAccess eIasRingBufferAccessWrite 0 (Some 0) (Some 0xFFFFFFFF) 0,
      CallEndAccess eIasRingBufferAccessWrite 0 0 0xFFFFFFFF 0 0] constructed"

section \<open>Properties\<close>

subsection \<open>Results of the wait loops\<close>

lemma waitWriteLoop_result:
  "fst (waitWriteLoop evs s) = Some r \<Longrightarrow>
   r = eIasRingBuffOk \<or> r = eIasRingBuffTimeOut \<or> r = eIasRingBuffCondWaitFailed"
proof (induction evs arbitrary: s)
  case Nil
  then show ?case by (simp split: if_splits)
next
  case (Cons ev evs)
  obtain c env where ev: "ev = (c, env)" by (cases ev)
  from Cons.prems show ?case
    unfolding ev by (auto simp: Let_def split: if_splits dest: Cons.IH)
qed

lemma waitWriteLoop_post:
  "fst (waitWriteLoop evs s) = Some r \<Longrightarrow>
   (r = eIasRingBuffTimeOut \<longrightarrow>
      mBufferLevel (snd (waitWriteLoop evs s)) > mWriteWaitLevel (snd (waitWriteLoop evs s)))
   \<and> (r = eIasRingBuffOk \<longrightarrow>
      \<not> mBufferLevel (snd (waitWriteLoop evs s)) > mWriteWaitLevel (snd (waitWriteLoop evs s)))"
proof (induction evs arbitrary: s)
  case Nil
  then show ?case by (simp split: if_splits)
next
  case (Cons ev evs)
  obtain c env where ev: "ev = (c, env)" by (cases ev)
  show ?case
  proof (cases "mBufferLevel s > mWriteWaitLevel s \<and> c = eIasOk")
    case True
    with Cons.prems Cons.IH [of "env s"] show ?thesis
      unfolding ev by (simp add: Let_def)
  next
    case False
    with Cons.prems show ?thesis
      unfolding ev by (auto simp: Let_def split: if_splits)
  qed
qed

lemma waitReadLoop_result:
  "fst (waitReadLoop i n evs s) = Some r \<Longrightarrow>
   r = eIasRingBuffOk \<or> r = eIasRingBuffTimeOut \<or> r = eIasRingBuffCondWaitFailed"
proof (induction evs arbitrary: s)
  case Nil
  then show ?case by (simp split: if_splits)
next
  case (Cons ev evs)
  obtain c env now where ev: "ev = (c, env, now)" by (cases ev)
  from Cons.prems show ?case
    unfolding ev by (auto simp: Let_def split: if_splits dest: Cons.IH)
qed

lemma commitWrite_result: "fst (commitWrite n now nowPurge s) = eIasRingBuffOk"
  by (simp add: commitWrite_def Let_def)

subsection \<open>endAccess without a write borrow\<close>

text \<open>
  Claim C9. \<open>endAccess\<close> with write access while \<open>mWriteInProgress\<close> is false
  returns \<open>eIasRingBuffOk\<close> and leaves the whole control block as it was (so
  also the write offset, the fill level, \<open>mAllowedToWrite\<close> and the reader
  table), whatever \<open>numBuffers\<close> is.
\<close>

theorem endAccess_write_idle_noop:
  "\<not> mWriteInProgress s \<Longrightarrow>
   endAccess eIasRingBufferAccessWrite p off numBuffers now nowPurge s = (eIasRingBuffOk, s)"
  by (simp add: endAccess_def)

theorem endAccess_write_idle_noop_witness:
  "\<not> mWriteInProgress scenarioFull \<and>
   endAccess eIasRingBufferAccessWrite 7 0 3 0 0 scenarioFull = (eIasRingBuffOk, scenarioFull)"
proof -
  have idle: "\<not> mWriteInProgress scenarioFull" by code_simp
  from idle endAccess_write_idle_noop [OF idle, of 7 0 3 0 0] show ?thesis by simp
qed

subsection \<open>The offset argument of endAccess\<close>

text \<open>
  Claim C10. \<open>endAccess\<close> does not look at its \<open>offset\<close> argument: two calls
  that differ in that argument only return the same result and the same control
  block, for every access mode, id and count. Nothing compares the argument with
  the offset \<open>beginAccess\<close> handed out.
\<close>

theorem endAccess_ignores_offset:
  "endAccess access p off1 numBuffers now nowPurge s =
   endAccess access p off2 numBuffers now nowPurge s"
  by (simp add: endAccess_def)

theorem endAccess_ignores_offset_witness:
  "endAccess eIasRingBufferAccessRead 1 0 2 5 5 scenarioBehind =
   endAccess eIasRingBufferAccessRead 1 3 2 5 5 scenarioBehind"
  using endAccess_ignores_offset [of eIasRingBufferAccessRead 1 0 2 5 5 scenarioBehind 3]
  by simp

subsection \<open>waitWrite\<close>

text \<open>
  Claim C7. \<open>waitWrite\<close> returns \<open>eIasRingBuffInvalidParam\<close> exactly when
  \<open>numBuffers\<close> is 0 or exceeds \<open>mNumBuffers\<close> or \<open>timeout_ms\<close> is 0, and then
  at once and without touching the control block. Otherwise it stores
  \<open>mNumBuffers - numBuffers\<close> in \<open>mWriteWaitLevel\<close> and runs the wait loop: with
  the fill level at or below the wait level the loop returns \<open>eIasRingBuffOk\<close>
  without waiting; while the level is above it, a wake with \<open>eIasOk\<close> re-checks,
  a wake with \<open>eIasTimeout\<close> returns \<open>eIasRingBuffTimeOut\<close> if the level is still
  above the wait level and \<open>eIasRingBuffOk\<close> if not, and any other wait result
  returns \<open>eIasRingBuffCondWaitFailed\<close>. After any number of wakes, a call that
  returns \<open>eIasRingBuffTimeOut\<close> leaves the level above the wait level, and one
  that returns \<open>eIasRingBuffOk\<close> leaves it at or below.
\<close>

theorem waitWrite_results:
  "(fst (waitWrite numBuffers timeout_ms evs s) = Some eIasRingBuffInvalidParam
      \<longleftrightarrow> numBuffers = 0 \<or> numBuffers > mNumBuffers s \<or> timeout_ms = 0)
   \<and> (numBuffers = 0 \<or> numBuffers > mNumBuffers s \<or> timeout_ms = 0 \<longrightarrow>
      waitWrite numBuffers timeout_ms evs s = (Some eIasRingBuffInvalidParam, s))
   \<and> (\<not> (numBuffers = 0 \<or> numBuffers > mNumBuffers s \<or> timeout_ms = 0) \<longrightarrow>
      waitWrite numBuffers timeout_ms evs s =
        waitWriteLoop evs (s\<lparr>mWriteWaitLevel := mNumBuffers s - numBuffers\<rparr>))
   \<and> (\<not> mBufferLevel t > mWriteWaitLevel t \<longrightarrow>
        waitWriteLoop evs' t = (Some eIasRingBuffOk, t))
   \<and> (mBufferLevel t > mWriteWaitLevel t \<longrightarrow>
        waitWriteLoop ((eIasOk, env) # evs') t = waitWriteLoop evs' (env t)
      \<and> waitWriteLoop ((eIasTimeout, env) # evs') t =
          (Some (if mBufferLevel (env t) > mWriteWaitLevel (env t)
                 then eIasRingBuffTimeOut else eIasRingBuffOk), env t)
      \<and> waitWriteLoop ((eIasCondOther k, env) # evs') t =
          (Some eIasRingBuffCondWaitFailed, env t))
   \<and> (fst (waitWrite numBuffers timeout_ms evs s) = Some eIasRingBuffTimeOut \<longrightarrow>
        mBufferLevel (snd (waitWrite numBuffers timeout_ms evs s))
          > mWriteWaitLevel (snd (waitWrite numBuffers timeout_ms evs s)))
   \<and> (fst (waitWrite numBuffers timeout_ms evs s) = Some eIasRingBuffOk \<longrightarrow>
        \<not> mBufferLevel (snd (waitWrite numBuffers timeout_ms evs s))
          > mWriteWaitLevel (snd (waitWrite numBuffers timeout_ms evs s)))"
proof -
  let ?bad = "numBuffers = 0 \<or> numBuffers > mNumBuffers s \<or> timeout_ms = 0"
  have inv: "?bad \<Longrightarrow> waitWrite numBuffers timeout_ms evs s = (Some eIasRingBuffInvalidParam, s)"
    by (auto simp: waitWrite_def)
  have val: "\<not> ?bad \<Longrightarrow> waitWrite numBuffers timeout_ms evs s =
        waitWriteLoop evs (s\<lparr>mWriteWaitLevel := mNumBuffers s - numBuffers\<rparr>)"
    by (auto simp: waitWrite_def)
  have never: "\<not> ?bad \<Longrightarrow>
      fst (waitWrite numBuffers timeout_ms evs s) \<noteq> Some eIasRingBuffInvalidParam"
    using waitWriteLoop_result [of evs "s\<lparr>mWriteWaitLevel := mNumBuffers s - numBuffers\<rparr>"
        eIasRingBuffInvalidParam] val
    by auto
  have iff: "fst (waitWrite numBuffers timeout_ms evs s) = Some eIasRingBuffInvalidParam
      \<longleftrightarrow> ?bad"
    using inv never by (cases ?bad) simp_all
  have idle: "\<not> mBufferLevel t > mWriteWaitLevel t \<Longrightarrow>
      waitWriteLoop evs' t = (Some eIasRingBuffOk, t)"
    by (cases evs') auto
  have wake: "mBufferLevel t > mWriteWaitLevel t \<Longrightarrow>
        waitWriteLoop ((eIasOk, env) # evs') t = waitWriteLoop evs' (env t)
      \<and> waitWriteLoop ((eIasTimeout, env) # evs') t =
          (Some (if mBufferLevel (env t) > mWriteWaitLevel (env t)
                 then eIasRingBuffTimeOut else eIasRingBuffOk), env t)
      \<and> waitWriteLoop ((eIasCondOther k, env) # evs') t =
          (Some eIasRingBuffCondWaitFailed, env t)"
    by (simp add: Let_def)
  have post: "(fst (waitWrite numBuffers timeout_ms evs s) = Some eIasRingBuffTimeOut \<longrightarrow>
        mBufferLevel (snd (waitWrite numBuffers timeout_ms evs s))
          > mWriteWaitLevel (snd (waitWrite numBuffers timeout_ms evs s)))
   \<and> (fst (waitWrite numBuffers timeout_ms evs s) = Some eIasRingBuffOk \<longrightarrow>
        \<not> mBufferLevel (snd (waitWrite numBuffers timeout_ms evs s))
          > mWriteWaitLevel (snd (waitWrite numBuffers timeout_ms evs s)))"
  proof (cases ?bad)
    case True
    from inv [OF True] show ?thesis by simp
  next
    case False
    from val [OF False]
      waitWriteLoop_post [of evs "s\<lparr>mWriteWaitLevel := mNumBuffers s - numBuffers\<rparr>"
        eIasRingBuffTimeOut]
      waitWriteLoop_post [of evs "s\<lparr>mWriteWaitLevel := mNumBuffers s - numBuffers\<rparr>"
        eIasRingBuffOk]
    show ?thesis by simp
  qed
  from iff inv val idle wake post show ?thesis by blast
qed

text \<open>
  On the full ring of four slots: a request for no slots is refused; a request
  for one slot whose wait times out with the ring still full returns
  \<open>eIasRingBuffTimeOut\<close>; had a reader drained a slot meanwhile, the same
  timeout returns \<open>eIasRingBuffOk\<close>.
\<close>

theorem waitWrite_results_witness:
  "waitWrite 0 100 [] scenarioFull = (Some eIasRingBuffInvalidParam, scenarioFull)
   \<and> waitWrite 1 100 [(eIasTimeout, \<lambda>s. s)] scenarioFull
       = (Some eIasRingBuffTimeOut, scenarioFull\<lparr>mWriteWaitLevel := 3\<rparr>)
   \<and> waitWrite 1 100 [(eIasTimeout, \<lambda>s. s\<lparr>mBufferLevel := 3\<rparr>)] scenarioFull
       = (Some eIasRingBuffOk, scenarioFull\<lparr>mWriteWaitLevel := 3, mBufferLevel := 3\<rparr>)"
proof -
  have N: "mNumBuffers scenarioFull = 4" by code_simp
  have L: "mBufferLevel scenarioFull = 4" by code_simp
  show ?thesis
    using N L
      waitWrite_results [of 0 100 "[]" scenarioFull scenarioFull "[]" "\<lambda>s. s" 0]
      waitWrite_results [of 1 100 "[(eIasTimeout, \<lambda>s. s)]" scenarioFull
        "scenarioFull\<lparr>mWriteWaitLevel := 3\<rparr>" "[]" "\<lambda>s. s" 0]
      waitWrite_results [of 1 100 "[(eIasTimeout, \<lambda>s. s\<lparr>mBufferLevel := 3\<rparr>)]" scenarioFull
        "scenarioFull\<lparr>mWriteWaitLevel := 3\<rparr>" "[]" "\<lambda>s. s\<lparr>mBufferLevel := 3\<rparr>" 0]
    by simp
qed

subsection \<open>Calls before init\<close>

lemma waitWrite_not_NotInitialized:
  "fst (waitWrite n t evs s) \<noteq> Some eIasRingBuffNotInitialized"
  using waitWriteLoop_result [of evs _ eIasRingBuffNotInitialized]
  by (auto simp: waitWrite_def)

lemma waitRead_not_NotInitialized:
  "fst (waitRead p n t now evs s) \<noteq> Some eIasRingBuffNotInitialized"
  using waitReadLoop_result [of _ n evs _ eIasRingBuffNotInitialized]
  by (auto simp: waitRead_def Let_def split: option.splits)

lemma addReader_not_NotInitialized: "fst (addReader p now s) \<noteq> eIasRingBuffNotInitialized"
  by (simp add: addReader_def split: option.splits)

lemma removeReader_not_NotInitialized: "fst (removeReader p s) \<noteq> eIasRingBuffNotInitialized"
  by (simp add: removeReader_def)

lemma endAccess_not_NotInitialized:
  "fst (endAccess access p off n now nowPurge s) \<noteq> eIasRingBuffNotInitialized"
  by (simp add: endAccess_def Let_def commitWrite_result split: option.splits)

text \<open>
  Claim C4, as stated, fails: on the freshly constructed object, before any
  \<open>init\<close>, \<open>addReader\<close> registers the reader and returns \<open>eIasRingBuffOk\<close>.
\<close>

theorem addReader_before_init_counterexample:
  "\<not> mInitialized constructed \<and> fst (addReader 1 0 constructed) = eIasRingBuffOk"
  by code_simp

text \<open>
  Claim C4, amended. Before \<open>init\<close> has succeeded, \<open>beginAccess\<close> and
  \<open>updateAvailable\<close> return \<open>eIasRingBuffNotInitialized\<close> when their pointers
  are not null and the access mode is defined, and \<open>eIasRingBuffInvalidParam\<close>
  otherwise (a null pointer or the undefined access mode), in both cases
  without touching the control block or the cells. The other operations never
  return \<open>eIasRingBuffNotInitialized\<close>, in any state: \<open>addReader\<close>,
  \<open>removeReader\<close> and \<open>endAccess\<close> do not read the flag, and \<open>waitWrite\<close> and
  \<open>waitRead\<close> return \<open>eIasRingBuffInvalidParam\<close> while \<open>mNumBuffers\<close> is still 0.
\<close>

theorem uninitialized_results:
  "\<not> mInitialized s \<longrightarrow>
     (access \<noteq> eIasRingBufferAccessUndef \<longrightarrow>
        beginAccess access p (Some off) (Some n) now s
          = (eIasRingBuffNotInitialized, Some off, Some n, s)
      \<and> updateAvailable access p (Some n) s = (eIasRingBuffNotInitialized, Some n))
   \<and> (offPtr = None \<or> nPtr = None \<or> access = eIasRingBufferAccessUndef \<longrightarrow>
        beginAccess access p offPtr nPtr now s = (eIasRingBuffInvalidParam, offPtr, nPtr, s))
   \<and> (nPtr = None \<or> access = eIasRingBufferAccessUndef \<longrightarrow>
        updateAvailable access p nPtr s = (eIasRingBuffInvalidParam, nPtr))
   \<and> fst (addReader p now s) \<noteq> eIasRingBuffNotInitialized
   \<and> fst (removeReader p s) \<noteq> eIasRingBuffNotInitialized
   \<and> fst (endAccess access p off n now nowPurge s) \<noteq> eIasRingBuffNotInitialized
   \<and> fst (waitWrite n timeout_ms evsW s) \<noteq> Some eIasRingBuffNotInitialized
   \<and> fst (waitRead p n timeout_ms now evsR s) \<noteq> Some eIasRingBuffNotInitialized
   \<and> (mNumBuffers s = 0 \<longrightarrow>
        waitWrite n timeout_ms evsW s = (Some eIasRingBuffInvalidParam, s)
      \<and> waitRead p n timeout_ms now evsR s = (Some eIasRingBuffInvalidParam, s))"
proof -
  have a: "\<not> mInitialized s \<Longrightarrow> access \<noteq> eIasRingBufferAccessUndef \<Longrightarrow>
      beginAccess access p (Some off) (Some n) now s
          = (eIasRingBuffNotInitialized, Some off, Some n, s)"
    by (simp add: beginAccess_def)
  have b: "\<not> mInitialized s \<Longrightarrow> access \<noteq> eIasRingBufferAccessUndef \<Longrightarrow>
      updateAvailable access p (Some n) s = (eIasRingBuffNotInitialized, Some n)"
    by (simp add: updateAvailable_def)
  have a': "offPtr = None \<or> nPtr = None \<or> access = eIasRingBufferAccessUndef \<Longrightarrow>
      beginAccess access p offPtr nPtr now s = (eIasRingBuffInvalidParam, offPtr, nPtr, s)"
    by (auto simp: beginAccess_def split: option.splits)
  have b': "nPtr = None \<or> access = eIasRingBufferAccessUndef \<Longrightarrow>
      updateAvailable access p nPtr s = (eIasRingBuffInvalidParam, nPtr)"
    by (auto simp: updateAvailable_def)
  have c: "mNumBuffers s = 0 \<Longrightarrow>
      waitWrite n timeout_ms evsW s = (Some eIasRingBuffInvalidParam, s)"
    by (cases "n = 0") (auto simp: waitWrite_def word_gt_0)
  have d: "mNumBuffers s = 0 \<Longrightarrow>
      waitRead p n timeout_ms now evsR s = (Some eIasRingBuffInvalidParam, s)"
    by (cases "n = 0") (auto simp: waitRead_def Let_def word_gt_0 split: option.splits)
  from a b a' b' c d show ?thesis
    using addReader_not_NotInitialized [of p now s] removeReader_not_NotInitialized [of p s]
      endAccess_not_NotInitialized [of access p off n now nowPurge s]
      waitWrite_not_NotInitialized [of n timeout_ms evsW s]
      waitRead_not_NotInitialized [of p n timeout_ms now evsR s]
    by blast
qed

text \<open>
  On the freshly constructed object: with good arguments \<open>beginAccess\<close> and
  \<open>updateAvailable\<close> report that it is not initialised; with the undefined
  access mode or a null pointer they report the bad argument instead.
\<close>

theorem uninitialized_results_witness:
  "\<not> mInitialized constructed
   \<and> fst (beginAccess eIasRingBufferAccessWrite 1 (Some 0) (Some 2) 0 constructed)
       = eIasRingBuffNotInitialized
   \<and> fst (updateAvailable eIasRingBufferAccessRead 1 (Some 2) constructed)
       = eIasRingBuffNotInitialized
   \<and> fst (beginAccess eIasRingBufferAccessUndef 1 (Some 0) (Some 2) 0 constructed)
       = eIasRingBuffInvalidParam
   \<and> fst (beginAccess eIasRingBufferAccessWrite 1 None (Some 2) 0 constructed)
       = eIasRingBuffInvalidParam
   \<and> fst (updateAvailable eIasRingBufferAccessRead 1 None constructed)
       = eIasRingBuffInvalidParam
   \<and> fst (addReader 1 0 constructed) \<noteq> eIasRingBuffNotInitialized
   \<and> waitWrite 2 100 [] constructed = (Some eIasRingBuffInvalidParam, constructed)
   \<and> waitRead 1 2 100 0 [] constructed = (Some eIasRingBuffInvalidParam, constructed)"
proof -
  have u: "\<not> mInitialized constructed" and z: "mNumBuffers constructed = 0"
    by (simp_all add: constructed_def)
  note w = uninitialized_results [where s = constructed and access = eIasRingBufferAccessWrite
      and p = 1 and off = 0 and n = 2 and now = 0 and nowPurge = 0 and timeout_ms = 100
      and evsW = "[]" and evsR = "[]" and offPtr = None and nPtr = "Some 2"]
  note r = uninitialized_results [where s = constructed and access = eIasRingBufferAccessRead
      and p = 1 and off = 0 and n = 2 and now = 0 and nowPurge = 0 and timeout_ms = 100
      and evsW = "[]" and evsR = "[]" and offPtr = "Some 0" and nPtr = None]
  note x = uninitialized_results [where s = constructed and access = eIasRingBufferAccessUndef
      and p = 1 and off = 0 and n = 2 and now = 0 and nowPurge = 0 and timeout_ms = 100
      and evsW = "[]" and evsR = "[]" and offPtr = "Some 0" and nPtr = "Some 2"]
  show ?thesis
    using u z w r x by simp
qed

subsection \<open>The geometry check of endAccess\<close>

text \<open>
  What the write path does when the count passes the \<open>mAllowedToWrite\<close> check
  and the sum \<open>mWriteOffset + numBuffers\<close> is above \<open>mNumBuffers\<close>: the result is
  \<open>eIasRingBuffInvalidParam\<close>, and \<open>mAllowedToWrite\<close> has been set to 0 before
  the early return; nothing else has changed.
\<close>

lemma endAccess_write_geometry:
  "mWriteInProgress s \<Longrightarrow> n \<le> mAllowedToWrite s \<Longrightarrow>
   mWriteOffset s + n \<noteq> mNumBuffers s \<Longrightarrow> mWriteOffset s + n > mNumBuffers s \<Longrightarrow>
   endAccess eIasRingBufferAccessWrite p off n now nowPurge s
     = (eIasRingBuffInvalidParam, s\<lparr>mAllowedToWrite := 0\<rparr>)"
  by (simp add: endAccess_def Let_def not_less [symmetric])

text \<open>
  Claim C3 against the code. In \<open>scenarioHuge\<close> a write borrow of
  \<open>2\<^sup>3\<^sup>2 - 2\<close> slots is in flight at write offset 3. Committing
  \<open>2\<^sup>3\<^sup>2 - 4\<close> of them makes the sum \<open>2\<^sup>3\<^sup>2 - 1\<close>, above \<open>mNumBuffers\<close>:
  the call returns \<open>eIasRingBuffInvalidParam\<close>, but the control block is not as
  it was, \<open>mAllowedToWrite\<close> is now 0.
\<close>

theorem endAccess_write_geometry_clears_grant:
  "mWriteInProgress scenarioHuge \<and> mAllowedToWrite scenarioHuge = 0xFFFFFFFE
   \<and> mWriteOffset scenarioHuge = 3 \<and> mNumBuffers scenarioHuge = 0xFFFFFFFE
   \<and> endAccess eIasRingBufferAccessWrite 0 0 0xFFFFFFFC 0 0 scenarioHuge
        = (eIasRingBuffInvalidParam, scenarioHuge\<lparr>mAllowedToWrite := 0\<rparr>)
   \<and> scenarioHuge\<lparr>mAllowedToWrite := 0\<rparr> \<noteq> scenarioHuge"
  by code_simp

subsection \<open>The grant of a write borrow\<close>

lemma u32_bound: "unat (x::u32) < 4294967296"
  using unsigned_less [of x, where 'a = nat] by simp

lemma clamp_end_le:
  "(wo::u32) \<le> N \<Longrightarrow> (if wo + n1 \<ge> N then N - wo else n1) \<le> n1"
  using u32_bound [of n1] u32_bound [of wo] u32_bound [of N]
  by (simp add: unat_arith_simps split: if_splits; arith)

text \<open>
  Where the write offset is not below the read offset, the free-space clamp and
  the physical-end clamp only reduce the request.
\<close>

lemma writeGrant_le_request:
  "\<not> mWriteOffset s < mReadOffset s \<Longrightarrow> mWriteOffset s \<le> mNumBuffers s \<Longrightarrow>
   writeGrant s n \<le> n"
  unfolding writeGrant_def Let_def
  using clamp_end_le [of "mWriteOffset s" "mNumBuffers s"
      "if n > mNumBuffers s - mBufferLevel s then mNumBuffers s - mBufferLevel s else n"]
  by (auto split: if_splits)

text \<open>
  Claim C2 against the code. In \<open>scenarioBehind\<close> (four slots, write offset 0,
  read offset 3, fill level 1, no borrow in flight) the writer asks for one
  slot. The first two clamps leave the request at 1; the assignment under
  \<open>mWriteOffset < mReadOffset\<close> then sets it to \<open>3 - 0 - 1 = 2\<close>: the call
  succeeds and grants two slots, more than were requested.
\<close>

theorem beginAccess_write_grant_exceeds_request:
  "mNumBuffers scenarioBehind = 4 \<and> mWriteOffset scenarioBehind = 0
   \<and> mReadOffset scenarioBehind = 3 \<and> mBufferLevel scenarioBehind = 1
   \<and> \<not> mWriteInProgress scenarioBehind
   \<and> fst (beginAccess eIasRingBufferAccessWrite 0 (Some 0) (Some 1) 0 scenarioBehind)
       = eIasRingBuffOk
   \<and> fst (snd (beginAccess eIasRingBufferAccessWrite 0 (Some 0) (Some 1) 0 scenarioBehind))
       = Some 0
   \<and> fst (snd (snd (beginAccess eIasRingBufferAccessWrite 0 (Some 0) (Some 1) 0 scenarioBehind)))
       = Some 2
   \<and> mAllowedToWrite
        (snd (snd (snd (beginAccess eIasRingBufferAccessWrite 0 (Some 0) (Some 1) 0 scenarioBehind))))
       = 2"
  by code_simp

subsection \<open>Finding a reader\<close>

lemma findReader_Some:
  "findReader rs p = Some i \<Longrightarrow> i < length rs \<and> pid (rs ! i) = p"
proof (induction rs arbitrary: i)
  case Nil
  then show ?case by simp
next
  case (Cons r rs)
  then show ?case by (auto split: if_splits)
qed

lemma findReader_None: "findReader rs p = None \<longleftrightarrow> p \<notin> set (map pid rs)"
  by (induction rs) auto

subsection \<open>Eviction of idle readers\<close>

lemma unknown_reader_results:
  assumes "p \<notin> set (map pid (mReaders s))"
  shows "(mInitialized s \<longrightarrow>
            beginAccess eIasRingBufferAccessRead p (Some off) (Some n) now s
              = (eIasRingBuffInvalidParam, Some off, Some n, s)
          \<and> updateAvailable eIasRingBufferAccessRead p (Some n) s = (eIasRingBuffInvalidParam, Some n))
       \<and> endAccess eIasRingBufferAccessRead p off n now nowPurge s = (eIasRingBuffInvalidParam, s)
       \<and> waitRead p n timeout_ms now evs s = (Some eIasRingBuffInvalidParam, s)
       \<and> fst (removeReader p s) = eIasRingBuffInvalidParam"
proof -
  from assms have none: "findReader (mReaders s) p = None"
    by (simp add: findReader_None)
  show ?thesis
    using assms none
    by (simp add: beginAccess_def updateAvailable_def endAccess_def waitRead_def removeReader_def)
qed

lemma purge_nth:
  "i < length (mReaders s) \<Longrightarrow>
   mReaders (purgeUnresponsiveReaders now s) ! i =
     (let r = mReaders s ! i in
      if pid r \<noteq> 0 \<and> now > lastAccess r \<and> now - lastAccess r > READER_TIMEOUT_NS
      then zeroReader else r)"
  by (simp add: purgeUnresponsiveReaders_def Let_def clearReader_def zeroReader_def)

lemma READER_TIMEOUT_NS_value: "READER_TIMEOUT_NS = 2000000000"
  by (simp add: READER_TIMEOUT_NS_def NSEC_PER_SEC_def)

lemma purge_removes_id:
  assumes "p \<noteq> 0"
    and "\<forall>r \<in> set (mReaders s). pid r = p \<longrightarrow>
           now > lastAccess r \<and> now - lastAccess r > READER_TIMEOUT_NS"
  shows "p \<notin> set (map pid (mReaders (purgeUnresponsiveReaders now s)))"
  using assms by (auto simp: purgeUnresponsiveReaders_def clearReader_def split: if_splits)

lemma endAccess_write_purges:
  "fst (endAccess eIasRingBufferAccessWrite p off n now nowPurge s) = eIasRingBuffOk \<Longrightarrow>
   mWriteInProgress s \<Longrightarrow>
   mReaders (snd (endAccess eIasRingBufferAccessWrite p off n now nowPurge s))
     = mReaders (purgeUnresponsiveReaders nowPurge s)"
  by (simp add: endAccess_def Let_def commitWrite_def purgeUnresponsiveReaders_def
      updateWriterAccess_def split: if_splits)

text \<open>
  Claim C6, as stated, fails in its last part. In \<open>scenarioTwins\<close> the id 5 is
  registered in entries 0 and 1, last touched at 0 and at \<open>10\<^sup>1\<^sup>0\<close> ns. The
  writer's \<open>endAccess\<close> at \<open>10\<^sup>1\<^sup>0 + 1\<close> ns zeroes entry 0, idle for more than
  \<open>2\<cdot>10\<^sup>9\<close> ns, and keeps entry 1: a later \<open>beginAccess\<close> with read access and
  the evicted entry's id 5 finds entry 1 and returns \<open>eIasRingBuffOk\<close>.
\<close>

theorem purge_duplicate_id_counterexample:
  "pid (mReaders scenarioTwins ! 0) = 5 \<and> lastAccess (mReaders scenarioTwins ! 0) = 0
   \<and> fst (endAccess eIasRingBufferAccessWrite 0 0 0 10000000001 10000000001 scenarioTwins)
       = eIasRingBuffOk
   \<and> mReaders (snd (endAccess eIasRingBufferAccessWrite 0 0 0 10000000001 10000000001
        scenarioTwins)) ! 0 = zeroReader
   \<and> fst (beginAccess eIasRingBufferAccessRead 5 (Some 0) (Some 1) 10000000002
        (snd (endAccess eIasRingBufferAccessWrite 0 0 0 10000000001 10000000001 scenarioTwins)))
       = eIasRingBuffOk"
  by code_simp

text \<open>
  Claim C6, amended. A successful \<open>endAccess\<close> of the writer leaves the reader
  table as \<open>purgeUnresponsiveReaders\<close> makes it. The purge zeroes a live entry
  if and only if \<open>now > lastAccess\<close> and \<open>now - lastAccess > 2\<cdot>10\<^sup>9\<close>, and leaves
  every other live entry as it was. When all entries carrying an id are
  evicted, the id is no longer in the table; and as long as an id is not in the
  table, the calls that need a registered reader (\<open>beginAccess\<close>,
  \<open>updateAvailable\<close> and \<open>endAccess\<close> with read access, \<open>waitRead\<close>,
  \<open>removeReader\<close>) return \<open>eIasRingBuffInvalidParam\<close>.
\<close>

theorem purge_eviction:
  "(mWriteInProgress s \<and>
      fst (endAccess eIasRingBufferAccessWrite q off n now nowPurge s) = eIasRingBuffOk \<longrightarrow>
      mReaders (snd (endAccess eIasRingBufferAccessWrite q off n now nowPurge s))
        = mReaders (purgeUnresponsiveReaders nowPurge s))
   \<and> (i < length (mReaders s) \<and> pid (mReaders s ! i) \<noteq> 0 \<longrightarrow>
        (mReaders (purgeUnresponsiveReaders nowPurge s) ! i = zeroReader
           \<longleftrightarrow> nowPurge > lastAccess (mReaders s ! i)
               \<and> nowPurge - lastAccess (mReaders s ! i) > 2000000000)
      \<and> (mReaders (purgeUnresponsiveReaders nowPurge s) ! i \<noteq> zeroReader \<longrightarrow>
           mReaders (purgeUnresponsiveReaders nowPurge s) ! i = mReaders s ! i))
   \<and> (p \<noteq> 0 \<and> (\<forall>r \<in> set (mReaders s). pid r = p \<longrightarrow>
           nowPurge > lastAccess r \<and> nowPurge - lastAccess r > 2000000000) \<longrightarrow>
        p \<notin> set (map pid (mReaders (purgeUnresponsiveReaders nowPurge s))))
   \<and> (p \<notin> set (map pid (mReaders t)) \<longrightarrow>
        (mInitialized t \<longrightarrow>
            beginAccess eIasRingBufferAccessRead p (Some off) (Some n) now t
              = (eIasRingBuffInvalidParam, Some off, Some n, t)
          \<and> updateAvailable eIasRingBufferAccessRead p (Some n) t
              = (eIasRingBuffInvalidParam, Some n))
       \<and> endAccess eIasRingBufferAccessRead p off n now nowPurge t = (eIasRingBuffInvalidParam, t)
       \<and> waitRead p n timeout_ms now evs t = (Some eIasRingBuffInvalidParam, t)
       \<and> fst (removeReader p t) = eIasRingBuffInvalidParam)"
proof -
  have nz: "pid r \<noteq> 0 \<Longrightarrow> r \<noteq> zeroReader" for r
    by (auto simp: zeroReader_def)
  have entry: "i < length (mReaders s) \<and> pid (mReaders s ! i) \<noteq> 0 \<Longrightarrow>
        (mReaders (purgeUnresponsiveReaders nowPurge s) ! i = zeroReader
           \<longleftrightarrow> nowPurge > lastAccess (mReaders s ! i)
               \<and> nowPurge - lastAccess (mReaders s ! i) > 2000000000)
      \<and> (mReaders (purgeUnresponsiveReaders nowPurge s) ! i \<noteq> zeroReader \<longrightarrow>
           mReaders (purgeUnresponsiveReaders nowPurge s) ! i = mReaders s ! i)"
    using nz [of "mReaders s ! i"]
    by (auto simp: purge_nth READER_TIMEOUT_NS_value Let_def)
  show ?thesis
    using entry endAccess_write_purges [of q off n now nowPurge s]
      purge_removes_id [of p s nowPurge]
      unknown_reader_results [of p t off n now nowPurge timeout_ms evs]
    unfolding READER_TIMEOUT_NS_value
    by blast
qed

theorem purge_eviction_witness:
  "mWriteInProgress scenarioTwins
   \<and> pid (mReaders scenarioTwins ! 0) = 5 \<and> pid (mReaders scenarioTwins ! 1) = 5
   \<and> fst (endAccess eIasRingBufferAccessWrite 0 0 0 20000000000 20000000000 scenarioTwins)
       = eIasRingBuffOk
   \<and> mReaders (snd (endAccess eIasRingBufferAccessWrite 0 0 0 20000000000 20000000000
        scenarioTwins)) ! 0 = zeroReader
   \<and> mReaders (snd (endAccess eIasRingBufferAccessWrite 0 0 0 20000000000 20000000000
        scenarioTwins)) ! 1 = zeroReader
   \<and> 5 \<notin> set (map pid (mReaders
        (snd (endAccess eIasRingBufferAccessWrite 0 0 0 20000000000 20000000000 scenarioTwins))))
   \<and> fst (beginAccess eIasRingBufferAccessRead 5 (Some 0) (Some 0) 20000000000
        (snd (endAccess eIasRingBufferAccessWrite 0 0 0 20000000000 20000000000 scenarioTwins)))
       = eIasRingBuffInvalidParam
   \<and> fst (endAccess eIasRingBufferAccessRead 5 0 0 20000000000 20000000000
        (snd (endAccess eIasRingBufferAccessWrite 0 0 0 20000000000 20000000000 scenarioTwins)))
       = eIasRingBuffInvalidParam
   \<and> fst (waitRead 5 0 100 20000000000 []
        (snd (endAccess eIasRingBufferAccessWrite 0 0 0 20000000000 20000000000 scenarioTwins)))
       = Some eIasRingBuffInvalidParam"
proof -
  let ?s = scenarioTwins
  let ?t = "snd (endAccess eIasRingBufferAccessWrite 0 0 0 20000000000 20000000000 ?s)"
  have h1: "mWriteInProgress ?s" by code_simp
  have h2: "fst (endAccess eIasRingBufferAccessWrite 0 0 0 20000000000 20000000000 ?s)
      = eIasRingBuffOk" by code_simp
  have h3: "0 < length (mReaders ?s) \<and> pid (mReaders ?s ! 0) \<noteq> 0" by code_simp
  have h3': "1 < length (mReaders ?s) \<and> pid (mReaders ?s ! 1) \<noteq> 0" by code_simp
  have h4: "pid (mReaders ?s ! 0) = 5 \<and> pid (mReaders ?s ! 1) = 5" by code_simp
  have h5: "20000000000 > lastAccess (mReaders ?s ! 0)
      \<and> 20000000000 - lastAccess (mReaders ?s ! 0) > 2000000000" by code_simp
  have h5': "20000000000 > lastAccess (mReaders ?s ! 1)
      \<and> 20000000000 - lastAccess (mReaders ?s ! 1) > 2000000000" by code_simp
  have h6: "(5 :: pid_t) \<noteq> 0 \<and> (\<forall>r \<in> set (mReaders ?s). pid r = 5 \<longrightarrow>
      20000000000 > lastAccess r \<and> 20000000000 - lastAccess r > 2000000000)" by code_simp
  have h7: "mInitialized ?t" by code_simp
  note a = purge_eviction [where s = ?s and q = 0 and off = 0 and n = 0
      and now = 20000000000 and nowPurge = 20000000000 and i = 0 and p = 5 and t = ?t
      and timeout_ms = 100 and evs = "[]"]
  note b = purge_eviction [where s = ?s and q = 0 and off = 0 and n = 0
      and now = 20000000000 and nowPurge = 20000000000 and i = 1 and p = 5 and t = ?t
      and timeout_ms = 100 and evs = "[]"]
  have gone: "5 \<notin> set (map pid (mReaders ?t))"
    using a h1 h2 h6 by simp
  from a b gone h1 h2 h3 h3' h4 h5 h5' h7 show ?thesis
    by simp
qed

subsection \<open>addReader followed by removeReader\<close>







text \<open>
  A second way to the same failure, with an id that is new to the table. In
  \<open>scenarioStamped\<close> a reader was evicted while it waited in \<open>waitRead\<close>, and
  the wait stamped the freed entry 0 afterwards: the entry is free but not
  all-zero. \<open>addReader(6)\<close> takes it, \<open>removeReader(6)\<close> zeroes it, and the table
  is not what it was.
\<close>

lemma roundtrip_stamped_free_entry:
  "fst (waitRead 5 1 3000 0
     [(eIasTimeout,
       \<lambda>s. run [CallBeginAccess eIasRingBufferAccessWrite 0 (Some 0) (Some 0) 3000000000,
                 CallEndAccess eIasRingBufferAccessWrite 0 0 0 3000000000 3000000000] s,
       3000000001)] scenarioOneReader) = Some eIasRingBuffTimeOut
   \<and> mReaders scenarioStamped ! 0
       = \<lparr>pid = 0, offset = 0, lastAccess = 3000000001, allowedToRead = 0\<rparr>
   \<and> 6 \<notin> set (map pid (mReaders scenarioStamped))
   \<and> fst (addReader 6 3000000002 scenarioStamped) = eIasRingBuffOk
   \<and> fst (removeReader 6 (snd (addReader 6 3000000002 scenarioStamped))) = eIasRingBuffOk
   \<and> mReaders (snd (removeReader 6 (snd (addReader 6 3000000002 scenarioStamped))))
       \<noteq> mReaders scenarioStamped"
proof -
  have "fst (waitRead 5 1 3000 0
     [(eIasTimeout,
       \<lambda>s. run [CallBeginAccess eIasRingBufferAccessWrite 0 (Some 0) (Some 0) 3000000000,
                 CallEndAccess eIasRingBufferAccessWrite 0 0 0 3000000000 3000000000] s,
       3000000001)] scenarioOneReader) = Some eIasRingBuffTimeOut"
    by code_simp
  moreover have "mReaders scenarioStamped ! 0
       = \<lparr>pid = 0, offset = 0, lastAccess = 3000000001, allowedToRead = 0\<rparr>"
    by code_simp
  moreover have "6 \<notin> set (map pid (mReaders scenarioStamped))"
    by code_simp
  moreover have "fst (addReader 6 3000000002 scenarioStamped) = eIasRingBuffOk"
    by code_simp
  moreover have
    "fst (removeReader 6 (snd (addReader 6 3000000002 scenarioStamped))) = eIasRingBuffOk"
    by code_simp
  moreover have "mReaders (snd (removeReader 6 (snd (addReader 6 3000000002 scenarioStamped))))
       \<noteq> mReaders scenarioStamped"
    by code_simp
  ultimately show ?thesis by blast
qed



subsection \<open>The grant of a read borrow\<close>

lemma read_clamp_end:
  fixes off N n1 :: u32
  assumes "off \<le> N" "unat off + unat n1 < 4294967296"
  shows "unat off + unat (if off + n1 \<ge> N then N - off else n1) \<le> unat N"
    and "(if off + n1 \<ge> N then N - off else n1) \<le> n1"
proof -
  show "unat off + unat (if off + n1 \<ge> N then N - off else n1) \<le> unat N"
    using assms u32_bound [of N]
    by (simp add: unat_arith_simps split: if_splits; arith)
  show "(if off + n1 \<ge> N then N - off else n1) \<le> n1"
    using assms u32_bound [of N]
    by (simp add: unat_arith_simps split: if_splits; arith)
qed

text \<open>
  Claim C5, as stated, fails where the 32-bit sum \<open>*offset + *numBuffers\<close> wraps
  around. In \<open>scenarioWrapped\<close> (\<open>2\<^sup>3\<^sup>2 - 1\<close> slots) the reader is at offset
  \<open>2\<^sup>3\<^sup>2 - 2\<close> with \<open>2\<^sup>3\<^sup>2 - 2\<close> slots to read; the sum wraps to \<open>2\<^sup>3\<^sup>2 - 4\<close>,
  below \<open>mNumBuffers\<close>, the second clamp does not fire, and the run granted
  reaches far past the physical end.
\<close>

theorem beginAccess_read_wraps_counterexample:
  "mNumBuffers scenarioWrapped = 0xFFFFFFFF
   \<and> fst (beginAccess eIasRingBufferAccessRead 1 (Some 0) (Some 0xFFFFFFFF) 0 scenarioWrapped)
       = eIasRingBuffOk
   \<and> fst (snd (beginAccess eIasRingBufferAccessRead 1 (Some 0) (Some 0xFFFFFFFF) 0
        scenarioWrapped)) = Some 0xFFFFFFFE
   \<and> fst (snd (snd (beginAccess eIasRingBufferAccessRead 1 (Some 0) (Some 0xFFFFFFFF) 0
        scenarioWrapped))) = Some 0xFFFFFFFE
   \<and> \<not> unat (0xFFFFFFFE :: u32) + unat (0xFFFFFFFE :: u32) \<le> unat (0xFFFFFFFF :: u32)"
proof -
  have "mNumBuffers scenarioWrapped = 0xFFFFFFFF"
    by code_simp
  moreover have
    "fst (beginAccess eIasRingBufferAccessRead 1 (Some 0) (Some 0xFFFFFFFF) 0 scenarioWrapped)
       = eIasRingBuffOk"
    by code_simp
  moreover have
    "fst (snd (beginAccess eIasRingBufferAccessRead 1 (Some 0) (Some 0xFFFFFFFF) 0
        scenarioWrapped)) = Some 0xFFFFFFFE"
    by code_simp
  moreover have
    "fst (snd (snd (beginAccess eIasRingBufferAccessRead 1 (Some 0) (Some 0xFFFFFFFF) 0
        scenarioWrapped))) = Some 0xFFFFFFFE"
    by code_simp
  moreover have "\<not> unat (0xFFFFFFFE :: u32) + unat (0xFFFFFFFE :: u32)
      \<le> unat (0xFFFFFFFF :: u32)"
    by simp
  ultimately show ?thesis by blast
qed

text \<open>
  Claim C5, amended. For a registered reader whose offset is not above
  \<open>mNumBuffers\<close>, and where the offset plus the request clamped to the reader's
  level stays below \<open>2\<^sup>3\<^sup>2\<close>: \<open>beginAccess\<close> with read access succeeds, returns
  the reader's offset, and grants the request clamped first to
  \<open>calculateReaderBufferLevel\<close> and then, if offset plus count reaches
  \<open>mNumBuffers\<close>, to \<open>mNumBuffers - offset\<close>; the grant exceeds neither the
  request nor the level, offset plus grant does not exceed \<open>mNumBuffers\<close>, and
  the grant is stored in the reader's \<open>allowedToRead\<close> (with the access stamp,
  nothing else changes).
\<close>

theorem beginAccess_read_grant:
  assumes "mInitialized s" "findReader (mReaders s) p = Some i"
    and "r = mReaders s ! i" "lvl = calculateReaderBufferLevel s r"
    and "offset r \<le> mNumBuffers s"
    and "unat (offset r) + unat (min n0 lvl) < 4294967296"
    and "g = (if offset r + min n0 lvl \<ge> mNumBuffers s then mNumBuffers s - offset r
              else min n0 lvl)"
  shows "beginAccess eIasRingBufferAccessRead p (Some off0) (Some n0) now s
           = (eIasRingBuffOk, Some (offset r), Some g,
              s\<lparr>mReaders := (mReaders s)[i := r\<lparr>allowedToRead := g, lastAccess := now\<rparr>]\<rparr>)
       \<and> allowedToRead ((mReaders s)[i := r\<lparr>allowedToRead := g, lastAccess := now\<rparr>] ! i) = g
       \<and> g \<le> n0 \<and> g \<le> lvl
       \<and> unat (offset r) + unat g \<le> unat (mNumBuffers s)"
proof -
  have i: "i < length (mReaders s)"
    using assms(2) by (simp add: findReader_Some)
  have le5: "unat (offset r) \<le> unat (mNumBuffers s)"
    using assms(5) by (simp add: word_le_nat_alt)
  have g: "readGrant s r n0 = g"
    unfolding readGrant_def Let_def assms(7) assms(4) min_def
    by (auto simp: not_less)
  have call: "beginAccess eIasRingBufferAccessRead p (Some off0) (Some n0) now s
           = (eIasRingBuffOk, Some (offset r), Some g,
              s\<lparr>mReaders := (mReaders s)[i := r\<lparr>allowedToRead := g, lastAccess := now\<rparr>]\<rparr>)"
    using assms(1,2) g
    by (simp add: beginAccess_def Let_def assms(3) [symmetric] updateReaderAccess_def)
  have le: "g \<le> min n0 lvl"
    unfolding assms(7) using read_clamp_end(2) [OF assms(5,6)] .
  have fits: "unat (offset r) + unat g \<le> unat (mNumBuffers s)"
    unfolding assms(7) using read_clamp_end(1) [OF assms(5,6)] .
  have stored: "allowedToRead ((mReaders s)[i := r\<lparr>allowedToRead := g, lastAccess := now\<rparr>] ! i) = g"
    using i by simp
  have le2: "g \<le> n0" "g \<le> lvl"
    using le by simp_all
  show ?thesis
    by (intro conjI call stored le2 fits)
qed

text \<open>
  In \<open>scenarioBehind\<close> the reader is at offset 3 of 4 with one slot to read: a
  request for four slots is granted one slot, at offset 3.
\<close>

theorem beginAccess_read_grant_witness:
  "mInitialized scenarioBehind \<and> findReader (mReaders scenarioBehind) 1 = Some 0
   \<and> offset (mReaders scenarioBehind ! 0) = 3 \<and> mNumBuffers scenarioBehind = 4
   \<and> calculateReaderBufferLevel scenarioBehind (mReaders scenarioBehind ! 0) = 1
   \<and> fst (beginAccess eIasRingBufferAccessRead 1 (Some 0) (Some 4) 9 scenarioBehind)
       = eIasRingBuffOk
   \<and> fst (snd (beginAccess eIasRingBufferAccessRead 1 (Some 0) (Some 4) 9 scenarioBehind))
       = Some 3
   \<and> fst (snd (snd (beginAccess eIasRingBufferAccessRead 1 (Some 0) (Some 4) 9 scenarioBehind)))
       = Some 1"
proof -
  let ?r = "mReaders scenarioBehind ! 0"
  let ?lvl = "calculateReaderBufferLevel scenarioBehind ?r"
  have h1: "mInitialized scenarioBehind" by code_simp
  have h2: "findReader (mReaders scenarioBehind) 1 = Some 0" by code_simp
  have off: "offset ?r = 3" by code_simp
  have N: "mNumBuffers scenarioBehind = 4" by code_simp
  have lvl: "?lvl = 1" by code_simp
  have h5: "offset ?r \<le> mNumBuffers scenarioBehind" by (simp add: off N)
  have h6: "unat (offset ?r) + unat (min 4 ?lvl) < 4294967296" by (simp add: off lvl)
  from beginAccess_read_grant [OF h1 h2 refl refl h5 h6 refl, of 0 9] h1 h2 off N lvl
  show ?thesis by simp
qed

section \<open>The fill level along call sequences\<close>

subsection \<open>smallerOffsetLoop\<close>

lemma smallerOffsetLoop_le_acc: "smallerOffsetLoop rs acc \<le> acc"
proof (induction rs arbitrary: acc)
  case Nil
  then show ?case by simp
next
  case (Cons r rs)
  have "smallerOffsetLoop (r # rs) acc \<le>
      (if pid r \<noteq> 0 then (if offset r < acc then offset r else acc) else acc)"
    using Cons.IH by simp
  also have "\<dots> \<le> acc" by auto
  finally show ?case .
qed

lemma smallerOffsetLoop_lower:
  "r \<in> set rs \<Longrightarrow> pid r \<noteq> 0 \<Longrightarrow> smallerOffsetLoop rs acc \<le> offset r"
proof (induction rs arbitrary: acc)
  case Nil
  then show ?case by simp
next
  case (Cons x rs)
  show ?case
  proof (cases "r = x")
    case True
    have "smallerOffsetLoop (x # rs) acc \<le> (if offset x < acc then offset x else acc)"
      using Cons.prems True smallerOffsetLoop_le_acc by simp
    also have "\<dots> \<le> offset x" by auto
    finally show ?thesis using True by simp
  next
    case False
    with Cons.prems have "r \<in> set rs" by simp
    from Cons.IH [OF this Cons.prems(2)] show ?thesis by simp
  qed
qed

lemma smallerOffsetLoop_attained:
  "smallerOffsetLoop rs acc = acc
   \<or> (\<exists>r \<in> set rs. pid r \<noteq> 0 \<and> offset r = smallerOffsetLoop rs acc)"
proof (induction rs arbitrary: acc)
  case Nil
  then show ?case by simp
next
  case (Cons x rs)
  let ?acc' = "if pid x \<noteq> 0 then (if offset x < acc then offset x else acc) else acc"
  from Cons.IH [of ?acc'] show ?case
    by (auto split: if_splits)
qed

subsection \<open>Arithmetic of the ring\<close>

lemma levelMatches_commit:
  assumes "levelMatches N wo ro L" "wo < N" "ro < N" "L \<le> N" "wo + n \<le> N" "L + n \<le> N"
  shows "levelMatches N (if wo + n = N then 0 else wo + n) ro (L + n)"
  using assms unfolding levelMatches_def by (auto split: if_splits)

lemma levelMatches_aggregate:
  assumes "levelMatches N wo ro L" "wo < N" "ro < N" "L \<le> N"
    and "ro \<le> m" "m \<le> N" "m \<le> ro + L"
  shows "levelMatches N wo (if m = N then 0 else m) (L - (m - ro))"
  using assms unfolding levelMatches_def by (auto split: if_splits)

lemma read_grant_fits:
  assumes "levelMatches N wo ro L" "wo < N" "ro < N" "L \<le> N"
    and "ro \<le> off" "off \<le> N" "off \<le> ro + L"
  shows "off + min (min n0 (if off \<le> wo then wo - off else N - off + wo)) (N - off) \<le> ro + L"
  using assms unfolding levelMatches_def by (auto split: if_splits simp: min_def)

lemma write_grant_fits:
  assumes "levelMatches N wo ro L" "wo < N" "ro < N" "L \<le> N"
    and "g = (if wo < ro then ro - wo - 1 else min (min n0 (N - L)) (N - wo))"
  shows "wo + g \<le> N \<and> L + g \<le> N"
  using assms unfolding levelMatches_def by (auto split: if_splits simp: min_def)

subsection \<open>The grants as natural numbers\<close>

lemma calculateReaderBufferLevel_nat:
  assumes "unat (offset r) \<le> unat (mNumBuffers s)" "unat (mWriteOffset s) < unat (mNumBuffers s)"
  shows "unat (calculateReaderBufferLevel s r) =
     (if unat (offset r) \<le> unat (mWriteOffset s) then unat (mWriteOffset s) - unat (offset r)
      else unat (mNumBuffers s) - unat (offset r) + unat (mWriteOffset s))"
  using assms u32_bound [of "mNumBuffers s"]
  unfolding calculateReaderBufferLevel_def Let_def
  by (simp add: unat_arith_simps split: if_splits; arith)

lemma clamp_end_nat:
  fixes off n1 N :: u32
  assumes "unat off + unat n1 < 4294967296" "unat off \<le> unat N"
  shows "unat (if off + n1 \<ge> N then N - off else n1) = min (unat n1) (unat N - unat off)"
  using assms u32_bound [of N]
  by (simp add: unat_arith_simps split: if_splits; arith)

lemma clamp_level_nat:
  fixes n lvl :: u32
  shows "unat (if n > lvl then lvl else n) = min (unat n) (unat lvl)"
  by (simp add: unat_arith_simps split: if_splits)

lemma readGrant_nat:
  assumes "unat (offset r) \<le> unat (mNumBuffers s)"
    and "unat (mWriteOffset s) < unat (mNumBuffers s)"
    and "unat (mNumBuffers s) \<le> 2147483648"
  shows "unat (readGrant s r n0) =
     min (min (unat n0) (unat (calculateReaderBufferLevel s r)))
         (unat (mNumBuffers s) - unat (offset r))"
proof -
  define lvl where "lvl = calculateReaderBufferLevel s r"
  define n1 where "n1 = (if n0 > lvl then lvl else n0)"
  have n1: "unat n1 = min (unat n0) (unat lvl)"
    unfolding n1_def by (rule clamp_level_nat)
  have "unat lvl < unat (mNumBuffers s)"
    unfolding lvl_def
    using calculateReaderBufferLevel_nat [OF assms(1,2)] assms(1,2) by (auto split: if_splits)
  moreover have "unat n1 \<le> unat lvl"
    using n1 by simp
  ultimately have "unat (offset r) + unat n1 < 4294967296"
    using assms(1,3) by linarith
  from clamp_end_nat [OF this assms(1)] n1 show ?thesis
    unfolding readGrant_def Let_def lvl_def [symmetric] n1_def [symmetric] by simp
qed

lemma writeGrant_nat:
  assumes "unat (mWriteOffset s) < unat (mNumBuffers s)"
    and "unat (mBufferLevel s) \<le> unat (mNumBuffers s)"
    and "unat (mNumBuffers s) \<le> 2147483648"
  shows "unat (writeGrant s n0) =
     (if unat (mWriteOffset s) < unat (mReadOffset s)
      then unat (mReadOffset s) - unat (mWriteOffset s) - 1
      else min (min (unat n0) (unat (mNumBuffers s) - unat (mBufferLevel s)))
               (unat (mNumBuffers s) - unat (mWriteOffset s)))"
proof -
  define free where "free = mNumBuffers s - mBufferLevel s"
  define n1 where "n1 = (if n0 > free then free else n0)"
  define n2 where "n2 = (if mWriteOffset s + n1 \<ge> mNumBuffers s
                         then mNumBuffers s - mWriteOffset s else n1)"
  have free: "unat free = unat (mNumBuffers s) - unat (mBufferLevel s)"
    unfolding free_def using assms(2) by (simp add: unat_sub word_le_nat_alt)
  have n1: "unat n1 = min (unat n0) (unat (mNumBuffers s) - unat (mBufferLevel s))"
    unfolding n1_def using clamp_level_nat [where n = n0 and lvl = free] free by simp
  have "unat n1 \<le> unat (mNumBuffers s)"
    using n1 by simp
  with assms(1,3) have "unat (mWriteOffset s) + unat n1 < 4294967296"
    by linarith
  from clamp_end_nat [OF this, of "mNumBuffers s"] assms(1) n1
  have n2: "unat n2
      = min (min (unat n0) (unat (mNumBuffers s) - unat (mBufferLevel s)))
            (unat (mNumBuffers s) - unat (mWriteOffset s))"
    unfolding n2_def by simp
  have gap: "mWriteOffset s < mReadOffset s \<Longrightarrow>
      unat (mReadOffset s - mWriteOffset s - 1) = unat (mReadOffset s) - unat (mWriteOffset s) - 1"
    by (simp add: unat_arith_simps; arith)
  have "writeGrant s n0 =
      (if mWriteOffset s < mReadOffset s then mReadOffset s - mWriteOffset s - 1 else n2)"
    unfolding writeGrant_def Let_def n2_def n1_def free_def by simp
  then show ?thesis
    using n2 gap by (simp add: word_less_nat_alt)
qed

subsection \<open>The invariant, taken apart and put together\<close>

lemma InvD:
  assumes "Inv s"
  shows "0 < unat (mNumBuffers s)" and "unat (mNumBuffers s) \<le> 2147483648"
    and "unat (mWriteOffset s) < unat (mNumBuffers s)"
    and "unat (mReadOffset s) < unat (mNumBuffers s)"
    and "unat (mBufferLevel s) \<le> unat (mNumBuffers s)"
    and "levelMatches (unat (mNumBuffers s)) (unat (mWriteOffset s))
           (unat (mReadOffset s)) (unat (mBufferLevel s))"
    and "list_all (readerOk (unat (mNumBuffers s)) (unat (mReadOffset s))
           (unat (mBufferLevel s))) (mReaders s)"
    and "mWriteInProgress s \<Longrightarrow>
           unat (mWriteOffset s) + unat (mAllowedToWrite s) \<le> unat (mNumBuffers s)
         \<and> unat (mBufferLevel s) + unat (mAllowedToWrite s) \<le> unat (mNumBuffers s)"
  using assms unfolding Inv_def Let_def by (simp_all split: if_splits)

lemma InvI:
  assumes "0 < unat (mNumBuffers s)" and "unat (mNumBuffers s) \<le> 2147483648"
    and "unat (mWriteOffset s) < unat (mNumBuffers s)"
    and "unat (mReadOffset s) < unat (mNumBuffers s)"
    and "unat (mBufferLevel s) \<le> unat (mNumBuffers s)"
    and "levelMatches (unat (mNumBuffers s)) (unat (mWriteOffset s))
           (unat (mReadOffset s)) (unat (mBufferLevel s))"
    and "list_all (readerOk (unat (mNumBuffers s)) (unat (mReadOffset s))
           (unat (mBufferLevel s))) (mReaders s)"
    and "mWriteInProgress s \<Longrightarrow>
           unat (mWriteOffset s) + unat (mAllowedToWrite s) \<le> unat (mNumBuffers s)
         \<and> unat (mBufferLevel s) + unat (mAllowedToWrite s) \<le> unat (mNumBuffers s)"
  shows "Inv s"
  using assms unfolding Inv_def Let_def by simp

lemma Inv_readers:
  assumes "Inv s"
    and "list_all (readerOk (unat (mNumBuffers s)) (unat (mReadOffset s))
           (unat (mBufferLevel s))) rs"
  shows "Inv (s\<lparr>mReaders := rs\<rparr>)"
  using assms unfolding Inv_def Let_def by simp

lemma readerOk_lastAccess [simp]:
  "readerOk N ro L (r\<lparr>lastAccess := t\<rparr>) = readerOk N ro L r"
  by (simp add: readerOk_def)

lemma readerOk_clear [simp]: "readerOk N ro L (clearReader r)"
  by (simp add: readerOk_def clearReader_def)

lemma list_all_update:
  "list_all P xs \<Longrightarrow> (i < length xs \<Longrightarrow> P x) \<Longrightarrow> list_all P (xs[i := x])"
  by (cases "i < length xs")
     (auto simp: list_all_iff list_update_beyond dest: set_update_subset_insert [THEN subsetD])

lemma Inv_touchReader: "Inv s \<Longrightarrow> Inv (touchReader i now s)"
  unfolding touchReader_def updateReaderAccess_def
  by (rule Inv_readers, assumption, rule list_all_update)
     (auto dest: InvD(7) simp: list_all_length)

lemma Inv_purge: "Inv s \<Longrightarrow> Inv (purgeUnresponsiveReaders now s)"
  unfolding purgeUnresponsiveReaders_def
  by (rule Inv_readers, assumption) (auto dest!: InvD(7) simp: list_all_iff)

subsection \<open>Each operation keeps the invariant\<close>

lemma Inv_reader:
  assumes "Inv s" "i < length (mReaders s)" "pid (mReaders s ! i) \<noteq> 0"
  shows "unat (mReadOffset s) \<le> unat (offset (mReaders s ! i))"
    and "unat (offset (mReaders s ! i)) + unat (allowedToRead (mReaders s ! i))
           \<le> unat (mNumBuffers s)"
    and "unat (offset (mReaders s ! i)) + unat (allowedToRead (mReaders s ! i))
           \<le> unat (mReadOffset s) + unat (mBufferLevel s)"
  using InvD(7) [OF assms(1)] assms(2,3)
  by (auto simp: list_all_length readerOk_def)

lemma Inv_beginAccess_read:
  assumes "Inv s" "findReader (mReaders s) p = Some i" "p \<noteq> 0"
  shows "Inv (s\<lparr>mReaders := (mReaders s)[i := updateReaderAccess now
            ((mReaders s ! i)\<lparr>allowedToRead := readGrant s (mReaders s ! i) n0\<rparr>)]\<rparr>)"
proof -
  let ?r = "mReaders s ! i"
  let ?N = "unat (mNumBuffers s)"
  from findReader_Some [OF assms(2)] assms(3)
  have i: "i < length (mReaders s)" and live: "pid ?r \<noteq> 0" by auto
  note rd = Inv_reader [OF assms(1) i live]
  have off: "unat (offset ?r) \<le> ?N" using rd(2) by simp
  have g: "unat (readGrant s ?r n0) =
      min (min (unat n0) (unat (calculateReaderBufferLevel s ?r))) (?N - unat (offset ?r))"
    by (rule readGrant_nat [OF off InvD(3) [OF assms(1)] InvD(2) [OF assms(1)]])
  have lvl: "unat (calculateReaderBufferLevel s ?r) =
     (if unat (offset ?r) \<le> unat (mWriteOffset s) then unat (mWriteOffset s) - unat (offset ?r)
      else ?N - unat (offset ?r) + unat (mWriteOffset s))"
    by (rule calculateReaderBufferLevel_nat [OF off InvD(3) [OF assms(1)]])
  have fits: "unat (offset ?r) + unat (readGrant s ?r n0)
      \<le> unat (mReadOffset s) + unat (mBufferLevel s)"
    unfolding g lvl
    using read_grant_fits [OF InvD(6) [OF assms(1)] InvD(3) [OF assms(1)] InvD(4) [OF assms(1)]
        InvD(5) [OF assms(1)] rd(1) off, of "unat n0"] rd(3)
    by simp
  have end_fits: "unat (offset ?r) + unat (readGrant s ?r n0) \<le> ?N"
    unfolding g using off by simp
  have "readerOk ?N (unat (mReadOffset s)) (unat (mBufferLevel s))
      (updateReaderAccess now (?r\<lparr>allowedToRead := readGrant s ?r n0\<rparr>))"
    using live rd(1) fits end_fits by (simp add: readerOk_def updateReaderAccess_def)
  then show ?thesis
    by (intro Inv_readers [OF assms(1)] list_all_update InvD(7) [OF assms(1)])
qed

lemma Inv_aggregate:
  assumes "Inv s" "r0 \<in> set (mReaders s)" "pid r0 \<noteq> 0"
  shows "Inv (aggregateReaderOffset s)"
proof -
  let ?N = "unat (mNumBuffers s)"
  let ?ro = "unat (mReadOffset s)"
  let ?L = "unat (mBufferLevel s)"
  define m where "m = smallerOffsetLoop (mReaders s) UINT32_MAX"
  note ok = InvD(7) [OF assms(1), unfolded list_all_iff]
  have live_ok: "?ro \<le> unat (offset r) \<and> unat (offset r) + unat (allowedToRead r) \<le> ?N
      \<and> unat (offset r) + unat (allowedToRead r) \<le> ?ro + ?L"
    if "r \<in> set (mReaders s)" "pid r \<noteq> 0" for r
    using ok that by (auto simp: readerOk_def)
  have lower: "unat m \<le> unat (offset r)" if "r \<in> set (mReaders s)" "pid r \<noteq> 0" for r
    using smallerOffsetLoop_lower [OF that, of UINT32_MAX]
    by (simp add: m_def word_le_nat_alt)
  have "unat m \<le> ?N"
    using lower [OF assms(2,3)] live_ok [OF assms(2,3)] by linarith
  with InvD(2) [OF assms(1)] have notmax: "m \<noteq> UINT32_MAX"
    by (auto simp: UINT32_MAX_def)
  with smallerOffsetLoop_attained [of "mReaders s" UINT32_MAX]
  obtain r1 where r1: "r1 \<in> set (mReaders s)" "pid r1 \<noteq> 0" "offset r1 = m"
    by (auto simp: m_def)
  from live_ok [OF r1(1,2)] r1(3)
  have m: "?ro \<le> unat m" "unat m \<le> ?N" "unat m \<le> ?ro + ?L" by auto
  have sub: "unat (mBufferLevel s - (m - mReadOffset s)) = ?L - (unat m - ?ro)"
    using m by (simp add: unat_arith_simps; arith)
  have mN: "m = mNumBuffers s \<longleftrightarrow> unat m = ?N"
    by (simp add: word_unat_eq_iff)
  have lm: "levelMatches ?N (unat (mWriteOffset s)) (if unat m = ?N then 0 else unat m)
      (?L - (unat m - ?ro))"
    by (rule levelMatches_aggregate [OF InvD(6) [OF assms(1)] InvD(3) [OF assms(1)]
          InvD(4) [OF assms(1)] InvD(5) [OF assms(1)] m])
  show ?thesis
  proof (cases "m = mNumBuffers s")
    case True
    let ?rs = "map (\<lambda>r. if pid r \<noteq> 0 then r\<lparr>offset := 0\<rparr> else r) (mReaders s)"
    have agg: "aggregateReaderOffset s =
        s\<lparr>mReaders := ?rs, mBufferLevel := mBufferLevel s - (m - mReadOffset s),
          mReadOffset := 0\<rparr>"
      using True notmax
      by (simp add: aggregateReaderOffset_def updateSmallerReaderOffset_def Let_def
          m_def [symmetric])
    have rs: "list_all (readerOk ?N 0 (?L - (unat m - ?ro))) ?rs"
      unfolding list_all_iff
    proof
      fix r' assume "r' \<in> set ?rs"
      then obtain r where r: "r \<in> set (mReaders s)"
        and r': "r' = (if pid r \<noteq> 0 then r\<lparr>offset := 0\<rparr> else r)" by auto
      show "readerOk ?N 0 (?L - (unat m - ?ro)) r'"
      proof (cases "pid r = 0")
        case True
        with ok r r' show ?thesis by (auto simp: readerOk_def)
      next
        case False
        from live_ok [OF r False] lower [OF r False] mN \<open>m = mNumBuffers s\<close>
        have "unat (allowedToRead r) = 0" by simp
        with False r' show ?thesis by (simp add: readerOk_def)
      qed
    qed
    show ?thesis
      unfolding agg
      apply (rule InvI)
      using InvD [OF assms(1)] lm rs True mN m sub
      by (auto split: if_splits)
  next
    case False
    with m(2) mN have lt: "m < mNumBuffers s"
      by (simp add: word_less_nat_alt)
    have agg: "aggregateReaderOffset s =
        s\<lparr>mBufferLevel := mBufferLevel s - (m - mReadOffset s), mReadOffset := m\<rparr>"
      using False notmax lt
      by (simp add: aggregateReaderOffset_def updateSmallerReaderOffset_def Let_def
          m_def [symmetric])
    have rs: "list_all (readerOk ?N (unat m) (?L - (unat m - ?ro))) (mReaders s)"
      unfolding list_all_iff
    proof
      fix r assume r: "r \<in> set (mReaders s)"
      show "readerOk ?N (unat m) (?L - (unat m - ?ro)) r"
      proof (cases "pid r = 0")
        case True
        with ok r show ?thesis by (auto simp: readerOk_def)
      next
        case False
        from live_ok [OF r False] lower [OF r False] m False show ?thesis
          by (simp add: readerOk_def)
      qed
    qed
    show ?thesis
      unfolding agg
      apply (rule InvI)
      using InvD [OF assms(1)] lm rs False mN m sub lt
      by (auto simp: word_less_nat_alt split: if_splits)
  qed
qed

lemma Inv_broadcast:
  "Inv s \<Longrightarrow> Inv (s\<lparr>mCondWriteBroadcasts := k\<rparr>)"
  "Inv s \<Longrightarrow> Inv (s\<lparr>mCondReadBroadcasts := k\<rparr>)"
  "Inv s \<Longrightarrow> Inv (updateWriterAccess now s)"
  unfolding Inv_def Let_def updateWriterAccess_def by simp_all

lemma Inv_endAccess_read:
  assumes "Inv s" "p \<noteq> 0"
  shows "Inv (snd (endAccess eIasRingBufferAccessRead p off n now nowPurge s))"
proof (cases "findReader (mReaders s) p")
  case None
  with assms(1) show ?thesis by (simp add: endAccess_def)
next
  case (Some i)
  let ?r = "mReaders s ! i"
  from findReader_Some [OF Some] assms(2)
  have i: "i < length (mReaders s)" and live: "pid ?r \<noteq> 0" by auto
  note rd = Inv_reader [OF assms(1) i live]
  show ?thesis
  proof (cases "n > allowedToRead ?r")
    case True
    with Some assms(1) show ?thesis by (simp add: endAccess_def Let_def)
  next
    case False
    then have n: "unat n \<le> unat (allowedToRead ?r)"
      by (simp add: word_le_nat_alt not_less)
    let ?r1 = "?r\<lparr>allowedToRead := 0, offset := offset ?r + n\<rparr>"
    let ?mid = "s\<lparr>mReaders := (mReaders s)[i := ?r1]\<rparr>"
    have sum: "unat (offset ?r + n) = unat (offset ?r) + unat n"
      using n rd(2) InvD(2) [OF assms(1)] by (simp add: unat_arith_simps)
    have "readerOk (unat (mNumBuffers s)) (unat (mReadOffset s)) (unat (mBufferLevel s)) ?r1"
      using live rd n sum by (simp add: readerOk_def)
    then have mid: "Inv ?mid"
      by (intro Inv_readers [OF assms(1)] list_all_update InvD(7) [OF assms(1)])
    have "?r1 \<in> set (mReaders ?mid)" "pid ?r1 \<noteq> 0"
      using i live by (simp_all add: set_update_memI)
    from Inv_aggregate [OF mid this] have agg: "Inv (aggregateReaderOffset ?mid)" .
    from Some False show ?thesis
      by (simp add: endAccess_def Let_def Inv_touchReader Inv_broadcast agg)
  qed
qed

lemma Inv_beginAccess_write:
  assumes "Inv s"
  shows "Inv (snd (snd (snd (beginAccess eIasRingBufferAccessWrite p off n now s))))"
proof (cases "\<exists>off0 n0. off = Some off0 \<and> n = Some n0 \<and> mInitialized s \<and> \<not> mWriteInProgress s")
  case False
  with assms show ?thesis
    by (auto simp: beginAccess_def split: option.splits)
next
  case True
  then obtain off0 n0 where args: "off = Some off0" "n = Some n0" "mInitialized s"
    "\<not> mWriteInProgress s" by blast
  let ?s1 = "s\<lparr>mWriteInProgress := True, mMutexWriteInProgress := True\<rparr>"
  have g: "unat (writeGrant ?s1 n0) =
     (if unat (mWriteOffset s) < unat (mReadOffset s)
      then unat (mReadOffset s) - unat (mWriteOffset s) - 1
      else min (min (unat n0) (unat (mNumBuffers s) - unat (mBufferLevel s)))
               (unat (mNumBuffers s) - unat (mWriteOffset s)))"
    using writeGrant_nat [of ?s1 n0] InvD(2,3,5) [OF assms] by simp
  from write_grant_fits [OF InvD(6) [OF assms] InvD(3) [OF assms] InvD(4) [OF assms]
      InvD(5) [OF assms] g]
  have fits: "unat (mWriteOffset s) + unat (writeGrant ?s1 n0) \<le> unat (mNumBuffers s)
      \<and> unat (mBufferLevel s) + unat (writeGrant ?s1 n0) \<le> unat (mNumBuffers s)" .
  have "Inv (updateWriterAccess now (?s1\<lparr>mAllowedToWrite := writeGrant ?s1 n0\<rparr>))"
    apply (rule InvI)
    using InvD [OF assms] fits
    by (simp_all add: updateWriterAccess_def)
  with args show ?thesis
    by (simp add: beginAccess_def Let_def)
qed

lemma Inv_commitWrite:
  assumes "Inv s" "mWriteInProgress s" "unat n \<le> unat (mAllowedToWrite s)"
    and "wo' = (if mWriteOffset s + n = mNumBuffers s then 0 else mWriteOffset s + n)"
  shows "Inv (snd (commitWrite n now nowPurge (s\<lparr>mAllowedToWrite := 0, mWriteOffset := wo'\<rparr>)))"
proof -
  let ?N = "unat (mNumBuffers s)"
  from InvD(8) [OF assms(1) assms(2)] assms(3)
  have room: "unat (mWriteOffset s) + unat n \<le> ?N" "unat (mBufferLevel s) + unat n \<le> ?N"
    by auto
  have sumw: "unat (mWriteOffset s + n) = unat (mWriteOffset s) + unat n"
    using room InvD(2) [OF assms(1)] by (simp add: unat_arith_simps)
  have suml: "unat (mBufferLevel s + n) = unat (mBufferLevel s) + unat n"
    using room InvD(2) [OF assms(1)] by (simp add: unat_arith_simps)
  have wo': "unat wo' = (if unat (mWriteOffset s) + unat n = ?N then 0
       else unat (mWriteOffset s) + unat n)"
    unfolding assms(4) using sumw by (simp add: word_unat_eq_iff)
  have lm: "levelMatches ?N (unat wo') (unat (mReadOffset s)) (unat (mBufferLevel s) + unat n)"
    unfolding wo'
    by (rule levelMatches_commit [OF InvD(6) [OF assms(1)] InvD(3) [OF assms(1)]
          InvD(4) [OF assms(1)] InvD(5) [OF assms(1)] room])
  have rs: "list_all (readerOk ?N (unat (mReadOffset s)) (unat (mBufferLevel s) + unat n))
      (mReaders s)"
    using InvD(7) [OF assms(1)] by (auto simp: list_all_iff readerOk_def)
  have "Inv (s\<lparr>mAllowedToWrite := 0, mWriteOffset := wo',
               mBufferLevel := mBufferLevel s + n,
               mWriteInProgress := False, mMutexWriteInProgress := False\<rparr>)"
    apply (rule InvI)
    using InvD(1,2,4) [OF assms(1)] room wo' lm rs suml
    by (auto split: if_splits)
  then show ?thesis
    by (simp add: commitWrite_def Let_def Inv_purge Inv_broadcast)
qed

lemma Inv_endAccess_write:
  assumes "Inv s"
  shows "Inv (snd (endAccess eIasRingBufferAccessWrite p off n now nowPurge s))"
proof (cases "mWriteInProgress s \<and> \<not> n > mAllowedToWrite s")
  case False
  with assms show ?thesis by (auto simp: endAccess_def)
next
  case True
  then have wip: "mWriteInProgress s" and n: "unat n \<le> unat (mAllowedToWrite s)"
    by (simp_all add: word_le_nat_alt not_less)
  have zero: "Inv (s\<lparr>mAllowedToWrite := 0\<rparr>)"
    apply (rule InvI)
    using InvD [OF assms] by simp_all
  note commit = Inv_commitWrite [OF assms wip n refl, of now nowPurge]
  from True zero commit show ?thesis
    by (auto simp: endAccess_def Let_def)
qed

lemma readerOk_added:
  assumes "readerOk N ro L r" "pid r = 0" "p \<noteq> 0" "unat w = ro" "ro \<le> N"
  shows "readerOk N ro L (updateReaderAccess now (r\<lparr>pid := p, offset := w\<rparr>))"
  using assms by (simp add: readerOk_def updateReaderAccess_def)

lemma addReaderLoop_ok:
  assumes "list_all (readerOk N ro L) rs" "p \<noteq> 0" "addReaderLoop rs p w now = Some rs'"
    and "unat w = ro" "ro \<le> N"
  shows "list_all (readerOk N ro L) rs'"
  using assms(1,3)
proof (induction rs arbitrary: rs')
  case Nil
  then show ?case by simp
next
  case (Cons r rs)
  show ?case
  proof (cases "pid r = 0")
    case True
    with Cons.prems readerOk_added [OF _ True assms(2,4,5), of L now] show ?thesis
      by auto
  next
    case False
    with Cons.prems obtain rs2 where "addReaderLoop rs p w now = Some rs2" "rs' = r # rs2"
      by auto
    with Cons.IH [of rs2] Cons.prems(1) show ?thesis by simp
  qed
qed

lemma Inv_addReader:
  assumes "Inv s"
  shows "Inv (snd (addReader p now s))"
proof (cases "sint p \<le> 0")
  case True
  with assms show ?thesis by (simp add: addReader_def)
next
  case False
  then have p: "p \<noteq> 0" by auto
  show ?thesis
  proof (cases "addReaderLoop (mReaders s) p (mReadOffset s) now")
    case None
    with assms False show ?thesis by (simp add: addReader_def)
  next
    case (Some rs')
    from addReaderLoop_ok [OF InvD(7) [OF assms] p Some refl] InvD(4) [OF assms]
    have "list_all (readerOk (unat (mNumBuffers s)) (unat (mReadOffset s))
        (unat (mBufferLevel s))) rs'" by simp
    from Inv_readers [OF assms this] Some False show ?thesis
      by (simp add: addReader_def)
  qed
qed

lemma Inv_removeReader:
  assumes "Inv s"
  shows "Inv (snd (removeReader p s))"
proof (cases "sint p > 0")
  case False
  with assms show ?thesis by (simp add: removeReader_def)
next
  case True
  have "list_all (readerOk (unat (mNumBuffers s)) (unat (mReadOffset s))
      (unat (mBufferLevel s))) (map (\<lambda>r. if pid r = p then clearReader r else r) (mReaders s))"
    using InvD(7) [OF assms] by (auto simp: list_all_iff)
  from Inv_readers [OF assms this] True show ?thesis
    by (simp add: removeReader_def)
qed

lemma Inv_init:
  assumes "fst (init packetSize numBuffers dataBuf shared constructed) = eIasRingBuffOk"
    and "numBuffers \<le> 0x80000000"
  shows "Inv (snd (init packetSize numBuffers dataBuf shared constructed))"
proof -
  from assms(1) have ok: "\<not> (packetSize = 0 \<or> numBuffers = 0 \<or> dataBuf = 0)"
    by (auto simp: init_def Let_def split: if_splits)
  then have pos: "0 < unat numBuffers" by (simp add: unat_gt_0)
  from assms(2) have le: "unat numBuffers \<le> 2147483648"
    by (simp add: word_le_nat_alt)
  show ?thesis
    apply (rule InvI)
    using ok pos le
    by (simp_all add: init_def Let_def constructed_def levelMatches_def list_all_iff
        readerOk_def zeroReader_def)
qed

lemma Inv_waitLevels:
  "Inv s \<Longrightarrow> Inv (s\<lparr>mWriteWaitLevel := k\<rparr>)"
  "Inv s \<Longrightarrow> Inv (s\<lparr>mReadWaitLevel := k\<rparr>)"
  unfolding Inv_def Let_def by simp_all

lemma Inv_waitWriteLoop:
  assumes "\<forall>(c, env) \<in> set evs. \<forall>s. Inv s \<longrightarrow> Inv (env s)" "Inv s"
  shows "Inv (snd (waitWriteLoop evs s))"
  using assms
proof (induction evs arbitrary: s)
  case Nil
  then show ?case by simp
next
  case (Cons ev evs)
  obtain c env where ev: "ev = (c, env)" by (cases ev)
  from Cons.prems have env: "Inv (env s)" and rest: "\<forall>(c, env) \<in> set evs. \<forall>s. Inv s \<longrightarrow> Inv (env s)"
    unfolding ev by auto
  from Cons.IH [OF rest env] env Cons.prems(2) show ?case
    unfolding ev by (simp add: Let_def)
qed

lemma Inv_waitReadLoop:
  assumes "\<forall>(c, env, now) \<in> set evs. \<forall>s. Inv s \<longrightarrow> Inv (env s)" "Inv s"
  shows "Inv (snd (waitReadLoop i n evs s))"
  using assms
proof (induction evs arbitrary: s)
  case Nil
  then show ?case by simp
next
  case (Cons ev evs)
  obtain c env now where ev: "ev = (c, env, now)" by (cases ev)
  from Cons.prems have env: "Inv (touchReader i now (env s))"
    and rest: "\<forall>(c, env, now) \<in> set evs. \<forall>s. Inv s \<longrightarrow> Inv (env s)"
    unfolding ev by (auto intro: Inv_touchReader)
  from Cons.IH [OF rest env] env Cons.prems(2) show ?case
    unfolding ev by (simp add: Let_def)
qed

lemma Inv_waitWrite:
  assumes "\<forall>(c, env) \<in> set evs. \<forall>s. Inv s \<longrightarrow> Inv (env s)" "Inv s"
  shows "Inv (snd (waitWrite n t evs s))"
  using Inv_waitWriteLoop [OF assms(1) Inv_waitLevels(1) [OF assms(2)]] assms(2)
  by (simp add: waitWrite_def)

lemma Inv_waitRead:
  assumes "\<forall>(c, env, now) \<in> set evs. \<forall>s. Inv s \<longrightarrow> Inv (env s)" "Inv s"
  shows "Inv (snd (waitRead p n t now evs s))"
proof -
  have "Inv (snd (waitReadLoop i n evs (touchReader i now s')))" if "Inv s'" for i s'
    by (rule Inv_waitReadLoop [OF assms(1) Inv_touchReader [OF that]])
  from this [OF assms(2)] this [OF Inv_waitLevels(2) [OF assms(2)]] assms(2) show ?thesis
    by (auto simp: waitRead_def Let_def split: option.splits)
qed

lemma Inv_beginAccess:
  assumes "Inv s" "access = eIasRingBufferAccessRead \<Longrightarrow> p \<noteq> 0"
  shows "Inv (snd (snd (snd (beginAccess access p off n now s))))"
proof (cases access)
  case eIasRingBufferAccessUndef
  with assms(1) show ?thesis by (simp add: beginAccess_def split: option.splits)
next
  case eIasRingBufferAccessWrite
  with Inv_beginAccess_write [OF assms(1)] show ?thesis by simp
next
  case eIasRingBufferAccessRead
  with assms(2) have p: "p \<noteq> 0" by simp
  show ?thesis
  proof (cases "findReader (mReaders s) p")
    case None
    with assms(1) eIasRingBufferAccessRead show ?thesis
      by (simp add: beginAccess_def split: option.splits)
  next
    case (Some i)
    from Inv_beginAccess_read [OF assms(1) Some p] assms(1) Some eIasRingBufferAccessRead
    show ?thesis
      by (simp add: beginAccess_def Let_def split: option.splits)
  qed
qed

lemma Inv_endAccess:
  assumes "Inv s" "access = eIasRingBufferAccessRead \<Longrightarrow> p \<noteq> 0"
  shows "Inv (snd (endAccess access p off n now nowPurge s))"
proof (cases access)
  case eIasRingBufferAccessUndef
  with assms(1) show ?thesis by (simp add: endAccess_def)
next
  case eIasRingBufferAccessWrite
  with Inv_endAccess_write [OF assms(1)] show ?thesis by simp
next
  case eIasRingBufferAccessRead
  with Inv_endAccess_read [OF assms(1)] assms(2) show ?thesis by simp
qed

lemma Inv_step: "Inv s \<Longrightarrow> legal c \<Longrightarrow> Inv (step c s)"
proof (induction c)
  case (CallWaitWrite n t wakes)
  then show ?case by (auto intro!: Inv_waitWrite)
next
  case (CallWaitRead p n t now wakes)
  then show ?case by (auto intro!: Inv_waitRead)
qed (auto intro: Inv_addReader Inv_removeReader Inv_beginAccess Inv_endAccess split: if_splits)

lemma Inv_run: "Inv s \<Longrightarrow> list_all legal cs \<Longrightarrow> Inv (run cs s)"
  by (induction cs arbitrary: s) (auto intro: Inv_step)

lemma waitWriteLoop_quiet:
  "mNumBuffers (snd (waitWriteLoop (map (\<lambda>c. (c, \<lambda>s. s)) wakes) s)) = mNumBuffers s"
  by (induction wakes arbitrary: s) (simp_all add: Let_def)

lemma touchReader_mNumBuffers [simp]: "mNumBuffers (touchReader i now s) = mNumBuffers s"
  by (simp add: touchReader_def)

lemma waitReadLoop_quiet:
  "mNumBuffers (snd (waitReadLoop i n (map (\<lambda>(c, t). (c, \<lambda>s. s, t)) wakes) s)) = mNumBuffers s"
  by (induction wakes arbitrary: s) (simp_all add: Let_def split: prod.splits)

lemma aggregate_mNumBuffers [simp]:
  "mNumBuffers (aggregateReaderOffset s) = mNumBuffers s"
  by (simp add: aggregateReaderOffset_def updateSmallerReaderOffset_def Let_def)

lemma commitWrite_mNumBuffers [simp]:
  "mNumBuffers (snd (commitWrite n now nowPurge s)) = mNumBuffers s"
  by (simp add: commitWrite_def Let_def purgeUnresponsiveReaders_def updateWriterAccess_def)

lemma step_mNumBuffers: "legal c \<Longrightarrow> mNumBuffers (step c s) = mNumBuffers s"
proof (induction c)
  case (CallWaitWrite n t wakes)
  then show ?case by (simp add: waitWrite_def waitWriteLoop_quiet)
next
  case (CallWaitRead p n t now wakes)
  then show ?case
    by (simp add: waitRead_def Let_def waitReadLoop_quiet split: option.splits)
next
  case (CallBeginAccess access p off n now)
  then show ?case
    by (simp add: beginAccess_def Let_def updateWriterAccess_def split: option.splits)
next
  case (CallEndAccess access p off n now nowPurge)
  then show ?case
    by (simp add: endAccess_def Let_def split: option.splits)
qed (simp_all add: addReader_def removeReader_def split: option.splits)

lemma run_mNumBuffers: "list_all legal cs \<Longrightarrow> mNumBuffers (run cs s) = mNumBuffers s"
  by (induction cs arbitrary: s) (simp_all add: step_mNumBuffers)

lemma Inv_level:
  assumes "Inv s"
  shows "mBufferLevel s \<le> mNumBuffers s
       \<and> uint (mBufferLevel s) mod uint (mNumBuffers s)
           = (uint (mWriteOffset s) - uint (mReadOffset s)) mod uint (mNumBuffers s)
       \<and> (mBufferLevel s \<noteq> mNumBuffers s \<longrightarrow>
            uint (mBufferLevel s)
              = (uint (mWriteOffset s) - uint (mReadOffset s)) mod uint (mNumBuffers s))
       \<and> (mBufferLevel s = mNumBuffers s \<longrightarrow> mWriteOffset s = mReadOffset s)"
proof -
  define Nn won ron Ln where "Nn = unat (mNumBuffers s)" and "won = unat (mWriteOffset s)"
    and "ron = unat (mReadOffset s)" and "Ln = unat (mBufferLevel s)"
  define N wo ro L where "N = int Nn" and "wo = int won" and "ro = int ron" and "L = int Ln"
  have ints: "uint (mNumBuffers s) = N" "uint (mWriteOffset s) = wo"
    "uint (mReadOffset s) = ro" "uint (mBufferLevel s) = L"
    by (simp_all add: N_def wo_def ro_def L_def Nn_def won_def ron_def Ln_def)
  from InvD(1,3,4,5,6) [OF assms]
  have nfacts: "0 < Nn" "won < Nn" "ron < Nn" "Ln \<le> Nn" "levelMatches Nn won ron Ln"
    unfolding Nn_def won_def ron_def Ln_def by simp_all
  then have facts: "0 < N" "wo < N" "ro < N" "L \<le> N" "0 \<le> wo" "0 \<le> ro" "0 \<le> L"
    unfolding N_def wo_def ro_def L_def by simp_all
  have lm: "if ro < wo then L = wo - ro else if wo < ro then L = N - ro + wo else L = 0 \<or> L = N"
    using nfacts unfolding levelMatches_def N_def wo_def ro_def L_def
    by (auto split: if_splits)
  have cases: "(wo - ro) mod N = (if ro \<le> wo then wo - ro else N + wo - ro)"
  proof (cases "ro \<le> wo")
    case True
    with facts show ?thesis by (simp add: mod_pos_pos_trivial)
  next
    case False
    have "(wo - ro) mod N = (wo - ro + N) mod N" by simp
    also have "\<dots> = wo - ro + N"
      using False facts by (intro mod_pos_pos_trivial) auto
    finally show ?thesis using False by simp
  qed
  have le: "mBufferLevel s \<le> mNumBuffers s"
    using facts(4) by (simp add: word_le_def ints)
  have cong: "L mod N = (wo - ro) mod N"
    unfolding cases using lm facts
    by (auto split: if_splits simp: mod_pos_pos_trivial)
  have neq: "L = (wo - ro) mod N" if "L \<noteq> N"
    unfolding cases using lm facts that by (auto split: if_splits)
  have full: "wo = ro" if "L = N"
    using lm facts that by (auto split: if_splits)
  have eqN: "mBufferLevel s = mNumBuffers s \<longleftrightarrow> L = N"
    by (simp add: ints [symmetric] word_uint_eq_iff)
  have eqw: "mWriteOffset s = mReadOffset s \<longleftrightarrow> wo = ro"
    by (simp add: ints [symmetric] word_uint_eq_iff)
  from le cong neq full show ?thesis
    unfolding eqN eqw ints by blast
qed

subsection \<open>The fill level and the offsets\<close>

text \<open>
  Claim C1, as stated, fails on the full ring. In \<open>scenarioFull\<close> the writer has
  borrowed and committed all four slots of a ring of four; no borrow is in
  flight, the write offset has wrapped to 0, the read offset is 0, and the
  fill level is 4, not \<open>(0 - 0) mod 4 = 0\<close>.
\<close>

theorem bufferLevel_full_ring_counterexample:
  "\<not> mWriteInProgress scenarioFull \<and> mNumBuffers scenarioFull = 4
   \<and> mBufferLevel scenarioFull = 4 \<and> mWriteOffset scenarioFull = 0
   \<and> mReadOffset scenarioFull = 0
   \<and> uint (mBufferLevel scenarioFull)
       \<noteq> (uint (mWriteOffset scenarioFull) - uint (mReadOffset scenarioFull))
           mod uint (mNumBuffers scenarioFull)"
  by code_simp

text \<open>
  With more than \<open>2\<^sup>3\<^sup>1\<close> slots the 32-bit sums in the clamps can wrap around,
  and the level and the offsets come apart altogether: in \<open>scenarioWrapped\<close>
  the level is \<open>mNumBuffers\<close> while the write offset is one slot behind the read
  offset.
\<close>

lemma bufferLevel_huge_ring:
  "\<not> mWriteInProgress scenarioWrapped \<and> mNumBuffers scenarioWrapped = 0xFFFFFFFF
   \<and> mBufferLevel scenarioWrapped = 0xFFFFFFFF \<and> mWriteOffset scenarioWrapped = 0xFFFFFFFD
   \<and> mReadOffset scenarioWrapped = 0xFFFFFFFE
   \<and> uint (mBufferLevel scenarioWrapped) mod uint (mNumBuffers scenarioWrapped)
       \<noteq> (uint (mWriteOffset scenarioWrapped) - uint (mReadOffset scenarioWrapped))
           mod uint (mNumBuffers scenarioWrapped)"
  by code_simp

text \<open>
  Claim C1, amended. After a successful \<open>init\<close> with at most \<open>2\<^sup>3\<^sup>1\<close> slots and
  any sequence of calls with reader ids other than 0 and no second \<open>init\<close>
  (paired or not, a borrow in flight or not): the fill level does not exceed
  \<open>mNumBuffers\<close> and is congruent to \<open>mWriteOffset - mReadOffset\<close> modulo
  \<open>mNumBuffers\<close>. So the level equals \<open>(mWriteOffset - mReadOffset) mod
  mNumBuffers\<close> unless the ring is full, where the level is \<open>mNumBuffers\<close> and the
  two offsets coincide.
\<close>

theorem bufferLevel_invariant:
  assumes "fst (init packetSize numBuffers dataBuf shared constructed) = eIasRingBuffOk"
    and "numBuffers \<le> 0x80000000"
    and "list_all legal calls"
    and "s = run calls (snd (init packetSize numBuffers dataBuf shared constructed))"
  shows "mNumBuffers s = numBuffers
       \<and> mBufferLevel s \<le> numBuffers
       \<and> uint (mBufferLevel s) mod uint numBuffers
           = (uint (mWriteOffset s) - uint (mReadOffset s)) mod uint numBuffers
       \<and> (mBufferLevel s \<noteq> numBuffers \<longrightarrow>
            uint (mBufferLevel s)
              = (uint (mWriteOffset s) - uint (mReadOffset s)) mod uint numBuffers)
       \<and> (mBufferLevel s = numBuffers \<longrightarrow> mWriteOffset s = mReadOffset s)"
proof -
  let ?s0 = "snd (init packetSize numBuffers dataBuf shared constructed)"
  from assms(1) have N0: "mNumBuffers ?s0 = numBuffers"
    by (auto simp: init_def Let_def split: if_splits)
  have N: "mNumBuffers s = numBuffers"
    unfolding assms(4) using run_mNumBuffers [OF assms(3)] N0 by simp
  have "Inv s"
    unfolding assms(4) by (rule Inv_run [OF Inv_init [OF assms(1,2)] assms(3)])
  from Inv_level [OF this] show ?thesis
    unfolding N by (simp add: N)
qed

theorem bufferLevel_invariant_witness:
  "fst (init 1 4 1 False constructed) = eIasRingBuffOk \<and> (4 :: u32) \<le> 0x80000000
   \<and> list_all legal
       [CallAddReader 1 0,
        CallBeginAccess eIasRingBufferAccessWrite 0 (Some 0) (Some 3) 0,
        CallEndAccess eIasRingBufferAccessWrite 0 0 3 0 0,
        CallBeginAccess eIasRingBufferAccessRead 1 (Some 0) (Some 3) 0,
        CallEndAccess eIasRingBufferAccessRead 1 0 3 0 0,
        CallBeginAccess eIasRingBufferAccessWrite 0 (Some 0) (Some 4) 0,
        CallEndAccess eIasRingBufferAccessWrite 0 0 1 0 0]
   \<and> mNumBuffers scenarioBehind = 4 \<and> mBufferLevel scenarioBehind \<le> 4
   \<and> uint (mBufferLevel scenarioBehind)
       = (uint (mWriteOffset scenarioBehind) - uint (mReadOffset scenarioBehind)) mod 4"
proof -
  let ?calls = "[CallAddReader 1 0,
        CallBeginAccess eIasRingBufferAccessWrite 0 (Some 0) (Some 3) 0,
        CallEndAccess eIasRingBufferAccessWrite 0 0 3 0 0,
        CallBeginAccess eIasRingBufferAccessRead 1 (Some 0) (Some 3) 0,
        CallEndAccess eIasRingBufferAccessRead 1 0 3 0 0,
        CallBeginAccess eIasRingBufferAccessWrite 0 (Some 0) (Some 4) 0,
        CallEndAccess eIasRingBufferAccessWrite 0 0 1 0 0]"
  have h1: "fst (init 1 4 1 False constructed) = eIasRingBuffOk"
    by (simp add: init_def)
  have h2: "(4 :: u32) \<le> 0x80000000" by simp
  have h3: "list_all legal ?calls" by simp
  have h4: "scenarioBehind = run ?calls (snd (init 1 4 1 False constructed))"
    by (simp add: scenarioBehind_def)
  have h5: "mBufferLevel scenarioBehind \<noteq> 4" by code_simp
  from h1 h2 h3 h5 bufferLevel_invariant [OF h1 h2 h3 h4] show ?thesis
    by simp
qed

section \<open>Free table entries along call sequences\<close>

text \<open>
  Along a call sequence in which nothing changes the control block during a
  wait, every free entry stays all-zero: \<open>run\<close> gives the waits no concurrent
  change. Where a writer's purge runs during a \<open>waitRead\<close> this fails, as
  \<open>scenarioStamped\<close> shows. The ring invariant does not depend on it.
\<close>

lemma freeEntriesZero_iff:
  "freeEntriesZero s \<longleftrightarrow> (\<forall>r \<in> set (mReaders s). pid r = 0 \<longrightarrow> r = zeroReader)"
  by (auto simp: freeEntriesZero_def list_all_iff)

lemma freeEntriesZero_update:
  assumes "freeEntriesZero s" "pid r' \<noteq> 0"
  shows "freeEntriesZero (s\<lparr>mReaders := (mReaders s)[i := r']\<rparr>)"
  using assms unfolding freeEntriesZero_iff
  by (auto dest!: set_update_subset_insert [THEN subsetD])

lemma freeEntriesZero_touchReader:
  assumes "freeEntriesZero s" "i < length (mReaders s)" "pid (mReaders s ! i) \<noteq> 0"
  shows "freeEntriesZero (touchReader i now s)"
  unfolding touchReader_def updateReaderAccess_def
  using assms(3) by (intro freeEntriesZero_update [OF assms(1)]) simp

lemma clearReader_zero [simp]: "clearReader r = zeroReader"
  by (simp add: clearReader_def zeroReader_def)

lemma freeEntriesZero_purge:
  "freeEntriesZero s \<Longrightarrow> freeEntriesZero (purgeUnresponsiveReaders now s)"
  unfolding freeEntriesZero_iff purgeUnresponsiveReaders_def by auto

lemma aggregate_readers:
  "mReaders (aggregateReaderOffset s) = mReaders s
   \<or> mReaders (aggregateReaderOffset s)
        = map (\<lambda>r. if pid r \<noteq> 0 then r\<lparr>offset := 0\<rparr> else r) (mReaders s)"
  by (simp add: aggregateReaderOffset_def updateSmallerReaderOffset_def Let_def)

lemma aggregate_length:
  "length (mReaders (aggregateReaderOffset s)) = length (mReaders s)"
  using aggregate_readers [of s] by auto

lemma aggregate_pid:
  "i < length (mReaders s) \<Longrightarrow>
     pid (mReaders (aggregateReaderOffset s) ! i) = pid (mReaders s ! i)"
  using aggregate_readers [of s] by auto

lemma freeEntriesZero_aggregate:
  "freeEntriesZero s \<Longrightarrow> freeEntriesZero (aggregateReaderOffset s)"
  using aggregate_readers [of s] unfolding freeEntriesZero_iff by auto

lemma freeEntriesZero_fields:
  "freeEntriesZero (s\<lparr>mCondWriteBroadcasts := k\<rparr>) = freeEntriesZero s"
  "freeEntriesZero (s\<lparr>mWriteWaitLevel := w\<rparr>) = freeEntriesZero s"
  "freeEntriesZero (s\<lparr>mReadWaitLevel := w\<rparr>) = freeEntriesZero s"
  by (simp_all add: freeEntriesZero_def)

lemma freeEntriesZero_endAccess_read:
  assumes "freeEntriesZero s" "p \<noteq> 0"
  shows "freeEntriesZero (snd (endAccess eIasRingBufferAccessRead p off n now nowPurge s))"
proof (cases "findReader (mReaders s) p")
  case None
  with assms(1) show ?thesis by (simp add: endAccess_def)
next
  case (Some i)
  let ?r = "mReaders s ! i"
  from findReader_Some [OF Some] assms(2)
  have i: "i < length (mReaders s)" and live: "pid ?r \<noteq> 0" by auto
  let ?mid = "s\<lparr>mReaders := (mReaders s)[i := ?r\<lparr>allowedToRead := 0, offset := offset ?r + n\<rparr>]\<rparr>"
  have mid: "freeEntriesZero ?mid"
    using live by (intro freeEntriesZero_update [OF assms(1)]) simp
  have agg: "freeEntriesZero (aggregateReaderOffset ?mid)"
    by (rule freeEntriesZero_aggregate [OF mid])
  have len: "i < length (mReaders (aggregateReaderOffset ?mid))"
    and pid: "pid (mReaders (aggregateReaderOffset ?mid) ! i) \<noteq> 0"
    using aggregate_length [of ?mid] aggregate_pid [where s = ?mid and i = i] i live by simp_all
  have "freeEntriesZero (touchReader i now s2)"
    if "freeEntriesZero s2" "mReaders s2 = mReaders (aggregateReaderOffset ?mid)" for s2
    using that len pid by (intro freeEntriesZero_touchReader) simp_all
  from this [of "aggregateReaderOffset ?mid"]
    this [of "(aggregateReaderOffset ?mid)\<lparr>mCondWriteBroadcasts :=
        Suc (mCondWriteBroadcasts (aggregateReaderOffset ?mid))\<rparr>"]
    agg Some assms(1)
  show ?thesis
    by (simp add: endAccess_def Let_def freeEntriesZero_fields)
qed

lemma freeEntriesZero_endAccess:
  assumes "freeEntriesZero s" "access = eIasRingBufferAccessRead \<Longrightarrow> p \<noteq> 0"
  shows "freeEntriesZero (snd (endAccess access p off n now nowPurge s))"
proof (cases access)
  case eIasRingBufferAccessUndef
  with assms(1) show ?thesis by (simp add: endAccess_def)
next
  case eIasRingBufferAccessRead
  with freeEntriesZero_endAccess_read [OF assms(1)] assms(2) show ?thesis by simp
next
  case eIasRingBufferAccessWrite
  have "freeEntriesZero (snd (commitWrite n now nowPurge s'))"
    if "mReaders s' = mReaders s" for s'
    using freeEntriesZero_purge [OF assms(1), of nowPurge] that
    by (simp add: commitWrite_def Let_def freeEntriesZero_def purgeUnresponsiveReaders_def
        updateWriterAccess_def)
  with assms(1) eIasRingBufferAccessWrite show ?thesis
    by (simp add: endAccess_def Let_def freeEntriesZero_def)
qed

lemma freeEntriesZero_beginAccess:
  assumes "freeEntriesZero s" "access = eIasRingBufferAccessRead \<Longrightarrow> p \<noteq> 0"
  shows "freeEntriesZero (snd (snd (snd (beginAccess access p off n now s))))"
proof (cases "access = eIasRingBufferAccessRead")
  case False
  with assms(1) show ?thesis
    by (auto simp: beginAccess_def Let_def freeEntriesZero_iff updateWriterAccess_def
        split: option.splits)
next
  case True
  with assms(2) have p: "p \<noteq> 0" by simp
  show ?thesis
  proof (cases "findReader (mReaders s) p")
    case None
    with assms(1) True show ?thesis by (simp add: beginAccess_def split: option.splits)
  next
    case (Some i)
    from findReader_Some [OF Some] p have live: "pid (mReaders s ! i) \<noteq> 0" by auto
    have "freeEntriesZero (s\<lparr>mReaders := (mReaders s)[i := updateReaderAccess now
        ((mReaders s ! i)\<lparr>allowedToRead := g\<rparr>)]\<rparr>)" for g
      using live by (intro freeEntriesZero_update [OF assms(1)]) (simp add: updateReaderAccess_def)
    with assms(1) True Some show ?thesis
      by (simp add: beginAccess_def Let_def split: option.splits)
  qed
qed

lemma addReaderLoop_free:
  assumes "\<forall>r \<in> set rs. pid r = 0 \<longrightarrow> r = zeroReader" "p \<noteq> 0"
    and "addReaderLoop rs p w now = Some rs'"
  shows "\<forall>r \<in> set rs'. pid r = 0 \<longrightarrow> r = zeroReader"
  using assms(1,3)
proof (induction rs arbitrary: rs')
  case Nil
  then show ?case by simp
next
  case (Cons r rs)
  show ?case
  proof (cases "pid r = 0")
    case True
    with Cons.prems assms(2) show ?thesis by (auto simp: updateReaderAccess_def)
  next
    case False
    with Cons.prems obtain rs2 where "addReaderLoop rs p w now = Some rs2" "rs' = r # rs2"
      by auto
    with Cons.IH [of rs2] Cons.prems(1) False show ?thesis by simp
  qed
qed

lemma freeEntriesZero_addReader:
  assumes "freeEntriesZero s"
  shows "freeEntriesZero (snd (addReader p now s))"
proof (cases "sint p \<le> 0")
  case True
  with assms show ?thesis by (simp add: addReader_def)
next
  case False
  then have p: "p \<noteq> 0" by auto
  from assms False addReaderLoop_free [OF _ p, of "mReaders s" "mReadOffset s" now]
  show ?thesis
    by (auto simp: addReader_def freeEntriesZero_iff split: option.splits)
qed

lemma freeEntriesZero_removeReader:
  "freeEntriesZero s \<Longrightarrow> freeEntriesZero (snd (removeReader p s))"
  unfolding freeEntriesZero_iff removeReader_def by auto

lemma freeEntriesZero_waitWriteLoop:
  "freeEntriesZero s \<Longrightarrow>
   freeEntriesZero (snd (waitWriteLoop (map (\<lambda>c. (c, \<lambda>s. s)) wakes) s))"
  by (induction wakes arbitrary: s) (simp_all add: Let_def)

lemma touchReader_length:
  "length (mReaders (touchReader i now s)) = length (mReaders s)"
  by (simp add: touchReader_def)

lemma touchReader_pid:
  "i < length (mReaders s) \<Longrightarrow> pid (mReaders (touchReader i now s) ! i) = pid (mReaders s ! i)"
  by (simp add: touchReader_def updateReaderAccess_def)

lemma freeEntriesZero_waitReadLoop:
  assumes "freeEntriesZero s" "i < length (mReaders s)" "pid (mReaders s ! i) \<noteq> 0"
  shows "freeEntriesZero (snd (waitReadLoop i n (map (\<lambda>(c, t). (c, \<lambda>s. s, t)) wakes) s))"
  using assms
proof (induction wakes arbitrary: s)
  case Nil
  then show ?case by simp
next
  case (Cons w wakes)
  obtain c t where w: "w = (c, t)" by (cases w)
  have touched: "freeEntriesZero (touchReader i t s)"
    by (rule freeEntriesZero_touchReader [OF Cons.prems])
  from Cons.IH [OF touched] touchReader_length [where i = i and now = t and s = s]
    touchReader_pid [where i = i and now = t and s = s] Cons.prems touched show ?case
    unfolding w by (simp add: Let_def)
qed

lemma freeEntriesZero_waitRead:
  assumes "freeEntriesZero s" "p \<noteq> 0"
  shows "freeEntriesZero (snd (waitRead p n t now (map (\<lambda>(c, t). (c, \<lambda>s. s, t)) wakes) s))"
proof (cases "findReader (mReaders s) p")
  case None
  with assms(1) show ?thesis by (simp add: waitRead_def)
next
  case (Some i)
  from findReader_Some [OF Some] assms(2)
  have i: "i < length (mReaders s)" and live: "pid (mReaders s ! i) \<noteq> 0" by auto
  have "freeEntriesZero (snd (waitReadLoop i n (map (\<lambda>(c, t). (c, \<lambda>s. s, t)) wakes)
      (touchReader i now s')))"
    if "freeEntriesZero s'" "mReaders s' = mReaders s" for s'
    using that i live touchReader_length [where i = i and now = now and s = s']
      touchReader_pid [where i = i and now = now and s = s']
    by (intro freeEntriesZero_waitReadLoop freeEntriesZero_touchReader) simp_all
  from this [of s] this [of "s\<lparr>mReadWaitLevel := n\<rparr>"] assms(1) Some show ?thesis
    by (simp add: waitRead_def Let_def freeEntriesZero_fields)
qed

lemma freeEntriesZero_step: "freeEntriesZero s \<Longrightarrow> legal c \<Longrightarrow> freeEntriesZero (step c s)"
proof (induction c)
  case (CallWaitWrite n t wakes)
  then show ?case
    by (simp add: waitWrite_def freeEntriesZero_waitWriteLoop freeEntriesZero_fields)
next
  case (CallWaitRead p n t now wakes)
  then show ?case by (simp add: freeEntriesZero_waitRead)
qed (auto intro: freeEntriesZero_addReader freeEntriesZero_removeReader
    freeEntriesZero_beginAccess freeEntriesZero_endAccess split: if_splits)

lemma freeEntriesZero_run:
  "freeEntriesZero s \<Longrightarrow> list_all legal cs \<Longrightarrow> freeEntriesZero (run cs s)"
  by (induction cs arbitrary: s) (auto intro: freeEntriesZero_step)

lemma freeEntriesZero_init:
  "freeEntriesZero (snd (init packetSize numBuffers dataBuf shared constructed))"
  by (simp add: init_def Let_def freeEntriesZero_def constructed_def list_all_iff)

lemma Inv_read_grant_premises:
  assumes "Inv s" "findReader (mReaders s) p = Some i" "p \<noteq> 0"
  shows "offset (mReaders s ! i) \<le> mNumBuffers s
       \<and> unat (offset (mReaders s ! i))
           + unat (min n0 (calculateReaderBufferLevel s (mReaders s ! i))) < 4294967296"
proof -
  let ?r = "mReaders s ! i"
  from findReader_Some [OF assms(2)] assms(3)
  have i: "i < length (mReaders s)" and live: "pid ?r \<noteq> 0" by auto
  from Inv_reader(2) [OF assms(1) i live]
  have off: "unat (offset ?r) \<le> unat (mNumBuffers s)" by simp
  have "unat (calculateReaderBufferLevel s ?r) < unat (mNumBuffers s)"
    using calculateReaderBufferLevel_nat [OF off InvD(3) [OF assms(1)]] off InvD(3) [OF assms(1)]
    by (auto split: if_splits)
  moreover have "unat (min n0 (calculateReaderBufferLevel s ?r))
      \<le> unat (calculateReaderBufferLevel s ?r)"
    by (simp add: word_le_nat_alt [symmetric])
  ultimately show ?thesis
    using off InvD(2) [OF assms(1)] by (simp add: word_le_nat_alt)
qed

end
